theory Spec2Isabelle
  imports Main "HOL-Library.Multiset"
begin

section \<open>Data model of dn-check\<close>

text \<open>
  The program asks the platform resolver (Go's \<^verbatim>\<open>net.LookupHost\<close>) about every
  \<^verbatim>\<open>name.tld\<close> combination and reports the domain as available or not. The embedding
  follows the latest revision of the program (the one with \<^verbatim>\<open>checkDomains\<close> and the
  channel fan-in in \<^verbatim>\<open>main\<close>); \<^verbatim>\<open>isDomainNameAvailable\<close> is the same in every revision.

  An \<^verbatim>\<open>error\<close> value returned by the resolver is either a \<^verbatim>\<open>*net.DNSError\<close>
  (the standard library's structure, with its classification flags) or a value of some
  other dynamic type, of which only the \<^verbatim>\<open>Error()\<close> text matters here.
\<close>

record DNSError =
  Err :: string
  DNSName :: string
  Server :: string
  IsTimeout :: bool
  IsTemporary :: bool
  IsNotFound :: bool

datatype go_error = DNS DNSError | OtherError string

text \<open>\<^verbatim>\<open>err.Error()\<close>: for a \<^verbatim>\<open>*net.DNSError\<close> the library builds
  \<^verbatim>\<open>"lookup " + Name [+ " on " + Server] + ": " + Err\<close>.\<close>

fun error_string :: "go_error \<Rightarrow> string" where
  "error_string (DNS e) =
     ''lookup '' @ DNSName e @ (if Server e \<noteq> [] then '' on '' @ Server e else []) @ '': '' @ Err e"
| "error_string (OtherError msg) = msg"

text \<open>\<^verbatim>\<open>net.LookupHost\<close>: the addresses found (\<open>Inr\<close>) or an error (\<open>Inl\<close>). It is a
  parameter of the model. Two things are assumed of it: every call returns (the
  library's resolver gives up after its own timeouts, and the program sets none), and
  one domain string gets one outcome during a run.\<close>

type_synonym resolver = "string \<Rightarrow> go_error + string list"

record TLD =
  TLDName :: string
  IsAvailable :: bool

record Result =
  Name :: string
  TLDList :: "TLD list"

text \<open>The fields of \<^verbatim>\<open>Options\<close> that the checking and output code reads; the other fields
  (\<^verbatim>\<open>FileName\<close>, \<^verbatim>\<open>Names\<close>, \<^verbatim>\<open>TLDs\<close>, \<^verbatim>\<open>Help\<close>) are consumed by \<^verbatim>\<open>readOptions\<close>.\<close>

record Options =
  Output :: string
  Verbose :: bool
  Json :: bool
  TLDsList :: "string list"
  NamesList :: "string list"

section \<open>The resolver adapter\<close>

text \<open>
  \<^verbatim>\<open>
  func isDomainNameAvailable(domain string) (bool, error) {
      _, err := net.LookupHost(domain)
      if err != nil {
          if _, ok := err.(*net.DNSError); ok {
              return true, nil
          }
          return false, err
      }
      return false, nil
  }
  \<close>
  The type assertion looks at the dynamic type of the error only; none of the flags of
  the \<^verbatim>\<open>DNSError\<close> is read.
\<close>

definition isDomainNameAvailable :: "resolver \<Rightarrow> string \<Rightarrow> bool \<times> go_error option" where
  "isDomainNameAvailable lookup domain =
     (case lookup domain of
        Inl err \<Rightarrow> (case err of DNS _ \<Rightarrow> (True, None) | OtherError _ \<Rightarrow> (False, Some err))
      | Inr _ \<Rightarrow> (False, None))"

section \<open>The probe task run by every goroutine\<close>

text \<open>
  What a goroutine does that other goroutines or \<^verbatim>\<open>main\<close> can see: it writes to standard
  output, it sends a value on the \<^verbatim>\<open>results\<close> channel, it decrements the wait group.
\<close>

datatype event = Print string | Send Result | WgDone

text \<open>
  \<^verbatim>\<open>
  func checkDomains(name string, tlds []string, results chan<- Result, wg *sync.WaitGroup) {
      defer wg.Done()
      var tldList []TLD
      for _, tld := range tlds {
          domain := name + "." + tld
          available, err := isDomainNameAvailable(domain)
          if err != nil {
              fmt.Printf("Error checking availability for domain %s: %s", domain, err)
              continue
          }
          tldList = append(tldList, TLD{TLDName: tld, IsAvailable: available})
      }
      results <- Result{Name: name, TLDList: tldList}
  }
  \<close>
  The loop carries what has been printed so far and \<^verbatim>\<open>tldList\<close>. The function is
  modelled by the sequence of its events; the deferred \<^verbatim>\<open>wg.Done()\<close> runs when the body
  returns, that is after the send.
\<close>

fun checkDomains_loop ::
  "resolver \<Rightarrow> string \<Rightarrow> string list \<Rightarrow> event list \<Rightarrow> TLD list \<Rightarrow> event list \<times> TLD list" where
  "checkDomains_loop lookup name [] out tldList = (out, tldList)"
| "checkDomains_loop lookup name (tld # tlds) out tldList =
     (let domain = name @ ''.'' @ tld in
      case isDomainNameAvailable lookup domain of
        (available, Some err) \<Rightarrow>
          checkDomains_loop lookup name tlds
            (out @ [Print (''Error checking availability for domain '' @ domain @ '': ''
                           @ error_string err)])
            tldList
      | (available, None) \<Rightarrow>
          checkDomains_loop lookup name tlds out
            (tldList @ [\<lparr>TLDName = tld, IsAvailable = available\<rparr>]))"

definition checkDomains :: "resolver \<Rightarrow> string \<Rightarrow> string list \<Rightarrow> event list" where
  "checkDomains lookup name tlds =
     (case checkDomains_loop lookup name tlds [] [] of
        (out, tldList) \<Rightarrow> out @ [Send \<lparr>Name = name, TLDList = tldList\<rparr>] @ [WgDone])"

section \<open>The sequential run\<close>

text \<open>
  \<^verbatim>\<open>
  func run(opts Options) ([]Result, error) {
      var Results []Result
      var tlds []TLD
      ...
      for _, name := range opts.NamesList {
          if name == "" {
              // skip empty lines
              continue
          }
          ...
          tlds = nil
          for _, tld := range opts.TLDsList {
              dnAvailable, err := isDomainNameAvailable(name + "." + tld)
              if err != nil {
                  fmt.Println(err)
                  return nil, err
              }
              tlds = append(tlds, TLD{tld, dnAvailable})
              ...
          }
          ...
          Results = append(Results, Result{Name: name, TLDList: tlds})
      }
      return Results, nil
  }
  \<close>
  The model gives the returned pair (a nil slice is the empty list); the console output
  of the verbose mode and of the error line is left out, it does not influence the result.
\<close>

fun run_tlds :: "resolver \<Rightarrow> string \<Rightarrow> string list \<Rightarrow> TLD list \<Rightarrow> go_error + TLD list" where
  "run_tlds lookup name [] tlds = Inr tlds"
| "run_tlds lookup name (tld # rest) tlds =
     (case isDomainNameAvailable lookup (name @ ''.'' @ tld) of
        (dnAvailable, Some err) \<Rightarrow> Inl err
      | (dnAvailable, None) \<Rightarrow>
          run_tlds lookup name rest (tlds @ [\<lparr>TLDName = tld, IsAvailable = dnAvailable\<rparr>]))"

fun run_names ::
  "resolver \<Rightarrow> string list \<Rightarrow> string list \<Rightarrow> Result list \<Rightarrow> Result list \<times> go_error option" where
  "run_names lookup tldsList [] Results = (Results, None)"
| "run_names lookup tldsList (name # names) Results =
     (if name = [] then run_names lookup tldsList names Results
      else case run_tlds lookup name tldsList [] of
             Inl err \<Rightarrow> ([], Some err)
           | Inr tlds \<Rightarrow>
               run_names lookup tldsList names (Results @ [\<lparr>Name = name, TLDList = tlds\<rparr>]))"

definition run :: "resolver \<Rightarrow> Options \<Rightarrow> Result list \<times> go_error option" where
  "run lookup opts = run_names lookup (TLDsList opts) (NamesList opts) []"

section \<open>Files and the library calls of the output code\<close>

type_synonym filesystem = "string \<rightharpoonup> string"

text \<open>
  The platform the program runs on: the resolver, the two JSON serialisers of
  \<^verbatim>\<open>encoding/json\<close>, and which file operations fail (creating or truncating a path,
  writing a chunk to a path after some content, closing a path).
\<close>

record platform =
  LookupHost :: resolver
  MarshalIndent :: "Result list \<Rightarrow> go_error + string"
  Marshal :: "Result list \<Rightarrow> go_error + string"
  create_fails :: "string \<Rightarrow> go_error option"
  write_fails :: "string \<Rightarrow> string \<Rightarrow> string \<Rightarrow> go_error option"
  close_fails :: "string \<Rightarrow> go_error option"

text \<open>\<^verbatim>\<open>os.WriteFile(name, data, 0644)\<close>: create or truncate, write, close.\<close>

definition WriteFile ::
  "platform \<Rightarrow> filesystem \<Rightarrow> string \<Rightarrow> string \<Rightarrow> filesystem \<times> go_error option" where
  "WriteFile P fs name data =
     (case create_fails P name of
        Some err \<Rightarrow> (fs, Some err)
      | None \<Rightarrow>
          (case write_fails P name [] data of
             Some err \<Rightarrow> (fs(name \<mapsto> []), Some err)
           | None \<Rightarrow> (fs(name \<mapsto> data), close_fails P name)))"

section \<open>Writing results to a file\<close>

text \<open>
  \<^verbatim>\<open>
  func SpoolOutputToFile(outputFileName string, result []Result, jsonOutput bool) error {
      f, err := os.Create(outputFileName)
      if err != nil {
          return err
      }
      defer func(f *os.File) {
          err := f.Close()
          if err != nil {
              fmt.Println(err)
              os.Exit(1)
          }
      }(f)
      if jsonOutput {
          err := json.NewEncoder(f).Encode(result)
          if err != nil {
              return err
          }
      } else {
          for _, r := range result {
              for _, t := range r.TLDList {
                  _, err = fmt.Fprintf(f, "%s.%s : %t\n", r.Name, t.TLDName, t.IsAvailable)
                  if err != nil {
                      return err
                  }
              }
          }
      }
      return nil
  }
  \<close>
  The two loops thread the content written to the file so far. \<^verbatim>\<open>Encode\<close> writes the
  serialised value followed by a newline.
\<close>

datatype spool_outcome = Returned "go_error option" | OsExit int

fun spool_tlds ::
  "platform \<Rightarrow> string \<Rightarrow> string \<Rightarrow> TLD list \<Rightarrow> string \<Rightarrow> string \<times> go_error option" where
  "spool_tlds P f name [] written = (written, None)"
| "spool_tlds P f name (t # ts) written =
     (let line = name @ ''.'' @ TLDName t @ '' : ''
                 @ (if IsAvailable t then ''true'' else ''false'') @ [CHR 0x0A] in
      case write_fails P f written line of
        Some err \<Rightarrow> (written, Some err)
      | None \<Rightarrow> spool_tlds P f name ts (written @ line))"

fun spool_results ::
  "platform \<Rightarrow> string \<Rightarrow> Result list \<Rightarrow> string \<Rightarrow> string \<times> go_error option" where
  "spool_results P f [] written = (written, None)"
| "spool_results P f (r # rs) written =
     (case spool_tlds P f (Name r) (TLDList r) written of
        (written', Some err) \<Rightarrow> (written', Some err)
      | (written', None) \<Rightarrow> spool_results P f rs written')"

definition spool_body ::
  "platform \<Rightarrow> string \<Rightarrow> Result list \<Rightarrow> bool \<Rightarrow> string \<times> go_error option" where
  "spool_body P f result jsonOutput =
     (if jsonOutput then
        (case Marshal P result of
           Inl err \<Rightarrow> ([], Some err)
         | Inr text \<Rightarrow>
             (case write_fails P f [] (text @ [CHR 0x0A]) of
                Some err \<Rightarrow> ([], Some err)
              | None \<Rightarrow> (text @ [CHR 0x0A], None)))
      else spool_results P f result [])"

definition SpoolOutputToFile ::
  "platform \<Rightarrow> filesystem \<Rightarrow> string \<Rightarrow> Result list \<Rightarrow> bool
   \<Rightarrow> filesystem \<times> string list \<times> spool_outcome" where
  "SpoolOutputToFile P fs outputFileName result jsonOutput =
     (case create_fails P outputFileName of
        Some err \<Rightarrow> (fs, [], Returned (Some err))
      | None \<Rightarrow>
          (case spool_body P outputFileName result jsonOutput of
             (written, ret) \<Rightarrow>
               (case close_fails P outputFileName of
                  Some cerr \<Rightarrow>
                    (fs(outputFileName \<mapsto> written), [error_string cerr @ [CHR 0x0A]], OsExit 1)
                | None \<Rightarrow> (fs(outputFileName \<mapsto> written), [], Returned ret))))"

section \<open>The concurrent main: fan-out, channel fan-in, rendering\<close>

text \<open>
  \<^verbatim>\<open>
  for _, name := range options.NamesList {
      for _, tld := range options.TLDsList {
          wg.Add(1)
          go checkDomains(name, []string{tld}, results, &wg)
      }
  }
  \<close>
  One goroutine per pair, in the order of the two loops; no name is skipped.
\<close>

definition probes :: "Options \<Rightarrow> (string \<times> string) list" where
  "probes opts = concat (map (\<lambda>name. map (\<lambda>tld. (name, tld)) (TLDsList opts)) (NamesList opts))"

definition dispatch :: "resolver \<Rightarrow> Options \<Rightarrow> event list list" where
  "dispatch lookup opts = map (\<lambda>(name, tld). checkDomains lookup name [tld]) (probes opts)"

datatype status = Running | Exited int | Panicked

text \<open>
  The state of the process after the dispatch loop: what every goroutine still has to
  do, the counter of the wait group, whether the channel has been closed, the values
  the \<^verbatim>\<open>range results\<close> loop has taken from the channel so far (with \<^verbatim>\<open>-j\<close> this is
  \<^verbatim>\<open>jsonResults\<close>), standard output as the sequence of writes, the files, and whether
  \<^verbatim>\<open>main\<close> is still running.
\<close>

record main_state =
  goroutines :: "event list list"
  wg :: int
  closed :: bool
  received :: "Result list"
  stdout :: "string list"
  files :: filesystem
  status :: status

definition main_init :: "platform \<Rightarrow> Options \<Rightarrow> filesystem \<Rightarrow> main_state" where
  "main_init P opts fs =
     \<lparr>goroutines = dispatch (LookupHost P) opts,
      wg = int (length (dispatch (LookupHost P) opts)),
      closed = False, received = [], stdout = [], files = fs, status = Running\<rparr>"

text \<open>
  One iteration of \<^verbatim>\<open>for result := range results\<close>. With \<^verbatim>\<open>-j\<close> the value is appended
  to \<^verbatim>\<open>jsonResults\<close>; otherwise its lines are printed at once:
  \<^verbatim>\<open>
  for _, tld := range result.TLDList {
      if tld.IsAvailable {
          fmt.Printf("%s.%s is available\n", result.Name, tld.TLDName)
      } else {
          fmt.Printf("%s.%s is not available\n", result.Name, tld.TLDName)
      }
  }
  \<close>
\<close>

definition result_lines :: "Result \<Rightarrow> string list" where
  "result_lines result =
     map (\<lambda>tld. Name result @ ''.'' @ TLDName tld
                 @ (if IsAvailable tld then '' is available'' else '' is not available'')
                 @ [CHR 0x0A])
         (TLDList result)"

definition main_receive :: "Options \<Rightarrow> Result \<Rightarrow> main_state \<Rightarrow> main_state" where
  "main_receive opts result s =
     (if Json opts then s\<lparr>received := received s @ [result]\<rparr>
      else s\<lparr>received := received s @ [result], stdout := stdout s @ result_lines result\<rparr>)"

text \<open>
  What \<^verbatim>\<open>main\<close> does once the loop over the channel has ended:
  \<^verbatim>\<open>
  jsonData, err := json.MarshalIndent(jsonResults, "", "  ")
  if err != nil {
      fmt.Printf("Error marshaling JSON: %s", err)
      os.Exit(1)
  }
  if options.Output != "" {
      err := os.WriteFile(options.Output, jsonData, 0644)
      if err != nil {
          fmt.Printf("Error writing JSON data to file %s: %s", options.Output, err)
          os.Exit(1)
      }
  } else {
      fmt.Println(string(jsonData))
  }
  \<close>
  and nothing more without \<^verbatim>\<open>-j\<close>.
\<close>

definition main_finish :: "platform \<Rightarrow> Options \<Rightarrow> main_state \<Rightarrow> main_state" where
  "main_finish P opts s =
     (if Json opts then
        (case MarshalIndent P (received s) of
           Inl err \<Rightarrow>
             s\<lparr>stdout := stdout s @ [''Error marshaling JSON: '' @ error_string err],
               status := Exited 1\<rparr>
         | Inr jsonData \<Rightarrow>
             if Output opts \<noteq> [] then
               (case WriteFile P (files s) (Output opts) jsonData of
                  (fs, Some err) \<Rightarrow>
                    s\<lparr>stdout := stdout s @ [''Error writing JSON data to file '' @ Output opts
                                            @ '': '' @ error_string err],
                      files := fs, status := Exited 1\<rparr>
                | (fs, None) \<Rightarrow> s\<lparr>files := fs, status := Exited 0\<rparr>)
             else s\<lparr>stdout := stdout s @ [jsonData @ [CHR 0x0A]], status := Exited 0\<rparr>)
      else s\<lparr>status := Exited 0\<rparr>)"

text \<open>
  The interleavings. While the process runs, any goroutine may perform its next event:
  a print, the send (a rendezvous with the receiving loop of \<^verbatim>\<open>main\<close>, the channel being
  unbuffered; sending on a closed channel panics), or \<^verbatim>\<open>wg.Done()\<close> (a negative counter
  panics). The anonymous goroutine
  \<^verbatim>\<open>go func() { wg.Wait(); close(results) }()\<close>
  closes the channel once the counter is zero, and the loop of \<^verbatim>\<open>main\<close> ends when the
  channel is closed.
\<close>

inductive step :: "platform \<Rightarrow> Options \<Rightarrow> main_state \<Rightarrow> main_state \<Rightarrow> bool"
  for P :: platform and opts :: Options where
  goroutine_print:
    "\<lbrakk>status s = Running; i < length (goroutines s); goroutines s ! i = Print msg # rest\<rbrakk>
     \<Longrightarrow> step P opts s (s\<lparr>goroutines := (goroutines s)[i := rest], stdout := stdout s @ [msg]\<rparr>)"
| channel_send:
    "\<lbrakk>status s = Running; i < length (goroutines s); goroutines s ! i = Send result # rest;
      \<not> closed s\<rbrakk>
     \<Longrightarrow> step P opts s (main_receive opts result (s\<lparr>goroutines := (goroutines s)[i := rest]\<rparr>))"
| send_on_closed:
    "\<lbrakk>status s = Running; i < length (goroutines s); goroutines s ! i = Send result # rest;
      closed s\<rbrakk>
     \<Longrightarrow> step P opts s (s\<lparr>status := Panicked\<rparr>)"
| goroutine_done:
    "\<lbrakk>status s = Running; i < length (goroutines s); goroutines s ! i = WgDone # rest; 0 < wg s\<rbrakk>
     \<Longrightarrow> step P opts s (s\<lparr>goroutines := (goroutines s)[i := rest], wg := wg s - 1\<rparr>)"
| negative_counter:
    "\<lbrakk>status s = Running; i < length (goroutines s); goroutines s ! i = WgDone # rest; wg s \<le> 0\<rbrakk>
     \<Longrightarrow> step P opts s (s\<lparr>status := Panicked\<rparr>)"
| close_results:
    "\<lbrakk>status s = Running; wg s = 0; \<not> closed s\<rbrakk>
     \<Longrightarrow> step P opts s (s\<lparr>closed := True\<rparr>)"
| range_ends:
    "\<lbrakk>status s = Running; closed s\<rbrakk>
     \<Longrightarrow> step P opts s (main_finish P opts s)"

definition reachable :: "platform \<Rightarrow> Options \<Rightarrow> filesystem \<Rightarrow> main_state \<Rightarrow> bool" where
  "reachable P opts fs s = (step P opts)\<^sup>*\<^sup>* (main_init P opts fs) s"

text \<open>The values the goroutines are going to send, in dispatch order, and those still to be sent.\<close>

definition sends_of :: "event list \<Rightarrow> Result list" where
  "sends_of evs = concat (map (\<lambda>e. case e of Send r \<Rightarrow> [r] | _ \<Rightarrow> []) evs)"

definition dispatched_results :: "resolver \<Rightarrow> Options \<Rightarrow> Result list" where
  "dispatched_results lookup opts = concat (map sends_of (dispatch lookup opts))"

subsection \<open>Schedules: the interleavings, executably\<close>

text \<open>
  A schedule names, step by step, who moves: goroutine number \<open>i\<close> (its next event), the
  closing goroutine, or the end of the loop of \<^verbatim>\<open>main\<close>. An action that is not enabled
  leaves the state as it is. Every step of the relation is such an action and conversely
  (lemmas \<open>perform_step\<close> and \<open>step_perform\<close>), so a schedule computes a reachable state.
\<close>

datatype action = Go nat | Closer | RangeEnds

fun perform :: "platform \<Rightarrow> Options \<Rightarrow> main_state \<Rightarrow> action \<Rightarrow> main_state" where
  "perform P opts s (Go i) =
     (if status s = Running \<and> i < length (goroutines s) then
        (case goroutines s ! i of
           [] \<Rightarrow> s
         | Print msg # rest \<Rightarrow> s\<lparr>goroutines := (goroutines s)[i := rest], stdout := stdout s @ [msg]\<rparr>
         | Send result # rest \<Rightarrow>
             if closed s then s\<lparr>status := Panicked\<rparr>
             else main_receive opts result (s\<lparr>goroutines := (goroutines s)[i := rest]\<rparr>)
         | WgDone # rest \<Rightarrow>
             if 0 < wg s then s\<lparr>goroutines := (goroutines s)[i := rest], wg := wg s - 1\<rparr>
             else s\<lparr>status := Panicked\<rparr>)
      else s)"
| "perform P opts s Closer =
     (if status s = Running \<and> wg s = 0 \<and> \<not> closed s then s\<lparr>closed := True\<rparr> else s)"
| "perform P opts s RangeEnds =
     (if status s = Running \<and> closed s then main_finish P opts s else s)"

definition execute :: "platform \<Rightarrow> Options \<Rightarrow> filesystem \<Rightarrow> action list \<Rightarrow> main_state" where
  "execute P opts fs acts = foldl (perform P opts) (main_init P opts fs) acts"

subsection \<open>Invariants of the fan-in\<close>

text \<open>
  What a goroutine still has to do is always a tail of \<open>Print* Send WgDone\<close>: it still has
  to send (after some prints), or it only has to call \<^verbatim>\<open>wg.Done()\<close>, or it has returned.
\<close>

fun awaiting_send :: "event list \<Rightarrow> bool" where
  "awaiting_send (Print msg # rest) = awaiting_send rest"
| "awaiting_send [Send result, WgDone] = True"
| "awaiting_send _ = False"

definition goroutine_ok :: "event list \<Rightarrow> bool" where
  "goroutine_ok g = (g = [] \<or> g = [WgDone] \<or> awaiting_send g)"

text \<open>
  The counter of the wait group is the number of goroutines that have not returned; the
  channel is closed only when it is zero; every value of the dispatched goroutines has
  either been received or is still to be sent; nothing has panicked; \<^verbatim>\<open>main\<close> leaves its
  loop only on a closed channel.
\<close>

definition fan_in_inv :: "platform \<Rightarrow> Options \<Rightarrow> main_state \<Rightarrow> bool" where
  "fan_in_inv P opts s =
     ((\<forall>g \<in> set (goroutines s). goroutine_ok g)
      \<and> wg s = int (length (filter (\<lambda>g. g \<noteq> []) (goroutines s)))
      \<and> (closed s \<longrightarrow> wg s = 0)
      \<and> mset (received s) + mset (concat (map sends_of (goroutines s)))
          = mset (dispatched_results (LookupHost P) opts)
      \<and> status s \<noteq> Panicked
      \<and> (status s \<noteq> Running \<longrightarrow> closed s))"

text \<open>The number of events still to happen: it decreases with every step.\<close>

definition remaining :: "main_state \<Rightarrow> nat" where
  "remaining s = sum_list (map length (goroutines s))
                 + (if closed s then 0 else 1) + (if status s = Running then 1 else 0)"

text \<open>The value that \<^verbatim>\<open>checkDomains(name, []string{tld}, ...)\<close> sends (lemma
  \<open>sends_of_checkDomains_single\<close>): one verdict, or none when the lookup returned an error.\<close>

definition probe_result :: "resolver \<Rightarrow> string \<times> string \<Rightarrow> Result" where
  "probe_result lookup p =
     (case p of (name, tld) \<Rightarrow>
        (case isDomainNameAvailable lookup (name @ ''.'' @ tld) of
           (available, None) \<Rightarrow> \<lparr>Name = name, TLDList = [\<lparr>TLDName = tld, IsAvailable = available\<rparr>]\<rparr>
         | (available, Some err) \<Rightarrow> \<lparr>Name = name, TLDList = []\<rparr>))"

text \<open>The verdicts for \<open>tld\<close> found under \<open>name\<close> in a collection of results.\<close>

definition verdicts_for :: "Result list \<Rightarrow> string \<Rightarrow> string \<Rightarrow> TLD list" where
  "verdicts_for rs name tld =
     concat (map (\<lambda>r. filter (\<lambda>v. TLDName v = tld) (TLDList r)) (filter (\<lambda>r. Name r = name) rs))"

text \<open>The diagnostics the goroutines print, and what holds of the output before the loop
  of \<^verbatim>\<open>main\<close> has ended: no file has been touched, and with \<^verbatim>\<open>-j\<close> standard output
  holds diagnostics only.\<close>

definition prints_of :: "event list \<Rightarrow> string list" where
  "prints_of evs = concat (map (\<lambda>e. case e of Print msg \<Rightarrow> [msg] | _ \<Rightarrow> []) evs)"

definition diagnostics :: "resolver \<Rightarrow> Options \<Rightarrow> string list" where
  "diagnostics lookup opts = concat (map prints_of (dispatch lookup opts))"

definition quiet_inv :: "platform \<Rightarrow> Options \<Rightarrow> filesystem \<Rightarrow> main_state \<Rightarrow> bool" where
  "quiet_inv P opts fs s =
     ((\<forall>g \<in> set (goroutines s). set (prints_of g) \<subseteq> set (diagnostics (LookupHost P) opts))
      \<and> (status s = Running \<longrightarrow> files s = fs)
      \<and> (status s = Running \<and> Json opts \<longrightarrow> set (stdout s) \<subseteq> set (diagnostics (LookupHost P) opts)))"

section \<open>Concrete platforms and inputs\<close>

text \<open>Errors as the resolver of the standard library reports them: the name does not
  exist; the query timed out.\<close>

definition no_such_host :: "string \<Rightarrow> go_error" where
  "no_such_host domain =
     DNS \<lparr>Err = ''no such host'', DNSName = domain, Server = [],
          IsTimeout = False, IsTemporary = False, IsNotFound = True\<rparr>"

definition io_timeout :: "string \<Rightarrow> go_error" where
  "io_timeout domain =
     DNS \<lparr>Err = ''i/o timeout'', DNSName = domain, Server = ''192.0.2.53:53'',
          IsTimeout = True, IsTemporary = True, IsNotFound = False\<rparr>"

text \<open>Resolvers: every name is registered; no name exists; every query times out; the
  lookup of \<^verbatim>\<open>a.com\<close> fails with an error that is not a \<^verbatim>\<open>*net.DNSError\<close> and every other
  name is registered.\<close>

definition all_registered :: resolver where
  "all_registered domain = Inr [''192.0.2.1'']"

definition none_exists :: resolver where
  "none_exists domain = Inl (no_such_host domain)"

definition all_time_out :: resolver where
  "all_time_out domain = Inl (io_timeout domain)"

definition a_com_fails :: resolver where
  "a_com_fails domain =
     (if domain = ''a.com'' then Inl (OtherError ''operation was canceled'') else Inr [''192.0.2.1''])"

text \<open>The query for \<^verbatim>\<open>a.com\<close> times out and every other name is registered.\<close>

definition a_com_times_out :: resolver where
  "a_com_times_out domain =
     (if domain = ''a.com'' then Inl (io_timeout domain) else Inr [''192.0.2.1''])"

text \<open>A platform on which no file operation fails, with a stand-in for the two serialisers
  (it lists the names and the verdicts).\<close>

definition stand_in_json :: "Result list \<Rightarrow> go_error + string" where
  "stand_in_json rs =
     Inr (concat (map (\<lambda>r. Name r @ '':''
                            @ concat (map (\<lambda>t. TLDName t @ (if IsAvailable t then ''+'' else ''-''))
                                          (TLDList r)) @ '';'') rs))"

definition platform_with :: "resolver \<Rightarrow> platform" where
  "platform_with lookup =
     \<lparr>LookupHost = lookup, MarshalIndent = stand_in_json, Marshal = stand_in_json,
      create_fails = (\<lambda>name. None), write_fails = (\<lambda>name written chunk. None),
      close_fails = (\<lambda>name. None)\<rparr>"

definition options_with :: "string list \<Rightarrow> string list \<Rightarrow> bool \<Rightarrow> Options" where
  "options_with names tlds json =
     \<lparr>Output = [], Verbose = False, Json = json, TLDsList = tlds, NamesList = names\<rparr>"

section \<open>Properties of the model\<close>

lemma perform_step: "perform P opts s a = s \<or> step P opts s (perform P opts s a)"
proof (cases a)
  case (Go i)
  show ?thesis
  proof (cases "status s = Running \<and> i < length (goroutines s)")
    case True
    then show ?thesis unfolding Go
      by (cases "goroutines s ! i"; simp split: event.split)
         (auto intro: step.intros split: event.split)
  next
    case False then show ?thesis unfolding Go by auto
  qed
next
  case Closer then show ?thesis by (auto intro: step.intros)
next
  case RangeEnds then show ?thesis by (auto intro: step.intros)
qed

lemma step_perform: "step P opts s s' \<Longrightarrow> \<exists>a. s' = perform P opts s a"
proof (induction rule: step.induct)
  case (goroutine_print s i msg rest) then show ?case by (intro exI[of _ "Go i"]) simp
next
  case (channel_send s i result rest) then show ?case by (intro exI[of _ "Go i"]) simp
next
  case (send_on_closed s i result rest) then show ?case by (intro exI[of _ "Go i"]) simp
next
  case (goroutine_done s i rest) then show ?case by (intro exI[of _ "Go i"]) simp
next
  case (negative_counter s i rest) then show ?case by (intro exI[of _ "Go i"]) simp
next
  case (close_results s) then show ?case by (intro exI[of _ Closer]) simp
next
  case (range_ends s) then show ?case by (intro exI[of _ RangeEnds]) simp
qed

lemma reachable_init: "reachable P opts fs (main_init P opts fs)"
  by (simp add: reachable_def)

lemma reachable_step: "reachable P opts fs s \<Longrightarrow> step P opts s s' \<Longrightarrow> reachable P opts fs s'"
  by (simp add: reachable_def)

lemma reachable_perform: "reachable P opts fs s \<Longrightarrow> reachable P opts fs (perform P opts s a)"
  using perform_step [of P opts s a] by (auto intro: reachable_step)

lemma reachable_foldl: "reachable P opts fs s \<Longrightarrow> reachable P opts fs (foldl (perform P opts) s acts)"
  by (induction acts arbitrary: s) (simp_all add: reachable_perform)

lemma reachable_execute: "reachable P opts fs (execute P opts fs acts)"
  by (simp add: execute_def reachable_foldl reachable_init)

lemma reachable_is_execute: "reachable P opts fs s \<Longrightarrow> \<exists>acts. s = execute P opts fs acts"
  unfolding reachable_def
proof (induction rule: rtranclp_induct)
  case base
  show ?case by (intro exI[of _ "[]"]) (simp add: execute_def)
next
  case (step y z)
  then obtain acts a where "y = execute P opts fs acts" "z = perform P opts y a"
    using step_perform by blast
  then show ?case by (intro exI[of _ "acts @ [a]"]) (simp add: execute_def)
qed

lemma awaiting_send_tail: "awaiting_send (e # rest) \<Longrightarrow> rest = [WgDone] \<or> awaiting_send rest"
  by (cases e; cases rest) (auto elim: awaiting_send.elims)

lemma awaiting_send_Cons_Send: "awaiting_send (Send r # rest) \<Longrightarrow> rest = [WgDone]"
  by (auto elim: awaiting_send.elims)

lemma awaiting_send_not_WgDone: "\<not> awaiting_send (WgDone # rest)"
  by simp

lemma awaiting_send_Print: "awaiting_send (Print m # rest) \<Longrightarrow> awaiting_send rest"
  by simp

lemma goroutine_ok_Print: "goroutine_ok (Print m # rest) \<Longrightarrow> awaiting_send rest"
  by (simp add: goroutine_ok_def)

lemma goroutine_ok_Send: "goroutine_ok (Send r # rest) \<Longrightarrow> rest = [WgDone]"
  by (auto simp: goroutine_ok_def dest: awaiting_send_Cons_Send)

lemma goroutine_ok_WgDone: "goroutine_ok (WgDone # rest) \<Longrightarrow> rest = []"
  by (simp add: goroutine_ok_def)

lemma awaiting_send_nonempty: "awaiting_send g \<Longrightarrow> g \<noteq> []"
  by auto

lemma sends_of_simps [simp]:
  "sends_of [] = []"
  "sends_of (Print m # rest) = sends_of rest"
  "sends_of (Send r # rest) = r # sends_of rest"
  "sends_of (WgDone # rest) = sends_of rest"
  by (simp_all add: sends_of_def)

lemma sends_of_append [simp]: "sends_of (xs @ ys) = sends_of xs @ sends_of ys"
  by (simp add: sends_of_def)

lemma sends_of_Prints [simp]: "sends_of (map (\<lambda>x. Print (f x)) xs) = []"
  by (induction xs) simp_all

lemma filter_length_update:
  "i < length xs \<Longrightarrow>
   length (filter p (xs[i := y])) + (if p (xs ! i) then 1 else 0)
   = length (filter p xs) + (if p y then 1 else 0)"
proof (induction xs arbitrary: i)
  case Nil then show ?case by simp
next
  case (Cons x xs)
  then show ?case by (cases i) (auto split: if_splits)
qed

lemma mset_concat_map_update:
  "i < length xs \<Longrightarrow>
   mset (concat (map f (xs[i := y]))) + mset (f (xs ! i)) = mset (concat (map f xs)) + mset (f y)"
proof (induction xs arbitrary: i)
  case Nil then show ?case by simp
next
  case (Cons x xs)
  show ?case
  proof (cases i)
    case 0 then show ?thesis by simp
  next
    case (Suc j)
    with Cons.prems have "j < length xs" by simp
    from Cons.IH [OF this] show ?thesis using Suc by (simp add: ac_simps)
  qed
qed

lemma set_update_ok:
  "\<forall>g \<in> set gs. goroutine_ok g \<Longrightarrow> goroutine_ok rest \<Longrightarrow> \<forall>g \<in> set (gs[i := rest]). goroutine_ok g"
  using set_update_subset_insert [of gs i rest] by auto

lemma main_finish_fields [simp]:
  "goroutines (main_finish P opts s) = goroutines s"
  "wg (main_finish P opts s) = wg s"
  "closed (main_finish P opts s) = closed s"
  "received (main_finish P opts s) = received s"
  by (simp_all add: main_finish_def split: sum.split prod.split option.split)

lemma main_finish_status: "\<exists>code. status (main_finish P opts s) = Exited code"
  by (simp add: main_finish_def split: sum.split prod.split option.split)

lemma main_receive_fields [simp]:
  "goroutines (main_receive opts r s) = goroutines s"
  "wg (main_receive opts r s) = wg s"
  "closed (main_receive opts r s) = closed s"
  "received (main_receive opts r s) = received s @ [r]"
  "status (main_receive opts r s) = status s"
  "files (main_receive opts r s) = files s"
  by (simp_all add: main_receive_def)

lemma checkDomains_loop_eq:
  "checkDomains_loop lookup name tlds out tldList =
     (out @ map (\<lambda>tld. Print (''Error checking availability for domain '' @ (name @ ''.'' @ tld) @ '': ''
                              @ error_string (the (snd (isDomainNameAvailable lookup (name @ ''.'' @ tld))))))
                (filter (\<lambda>tld. snd (isDomainNameAvailable lookup (name @ ''.'' @ tld)) \<noteq> None) tlds),
      tldList @ map (\<lambda>tld. \<lparr>TLDName = tld,
                             IsAvailable = fst (isDomainNameAvailable lookup (name @ ''.'' @ tld))\<rparr>)
                    (filter (\<lambda>tld. snd (isDomainNameAvailable lookup (name @ ''.'' @ tld)) = None) tlds))"
proof (induction tlds arbitrary: out tldList)
  case Nil
  show ?case by simp
next
  case (Cons tld tlds)
  show ?case
  proof (cases "isDomainNameAvailable lookup (name @ ''.'' @ tld)")
    case (Pair available err)
    then show ?thesis using Cons.IH by (cases err) (simp_all add: Let_def)
  qed
qed

lemma checkDomains_eq:
  "checkDomains lookup name tlds =
     map (\<lambda>tld. Print (''Error checking availability for domain '' @ (name @ ''.'' @ tld) @ '': ''
                       @ error_string (the (snd (isDomainNameAvailable lookup (name @ ''.'' @ tld))))))
         (filter (\<lambda>tld. snd (isDomainNameAvailable lookup (name @ ''.'' @ tld)) \<noteq> None) tlds)
     @ [Send \<lparr>Name = name,
              TLDList = map (\<lambda>tld. \<lparr>TLDName = tld,
                                     IsAvailable = fst (isDomainNameAvailable lookup (name @ ''.'' @ tld))\<rparr>)
                            (filter (\<lambda>tld. snd (isDomainNameAvailable lookup (name @ ''.'' @ tld)) = None) tlds)\<rparr>,
        WgDone]"
  by (simp add: checkDomains_def checkDomains_loop_eq)

lemma awaiting_send_Prints: "awaiting_send (map (\<lambda>x. Print (f x)) xs @ [Send r, WgDone])"
  by (induction xs) simp_all

lemma checkDomains_awaiting: "awaiting_send (checkDomains lookup name tlds)"
  by (subst checkDomains_eq) (rule awaiting_send_Prints)

lemma checkDomains_ok: "goroutine_ok (checkDomains lookup name tlds)"
  by (simp add: goroutine_ok_def checkDomains_awaiting)

lemma checkDomains_nonempty: "checkDomains lookup name tlds \<noteq> []"
  by (simp add: checkDomains_def split: prod.split)

lemma dispatch_ok: "\<forall>g \<in> set (dispatch lookup opts). goroutine_ok g"
  by (auto simp: dispatch_def checkDomains_ok)

lemma dispatch_nonempty: "filter (\<lambda>g. g \<noteq> []) (dispatch lookup opts) = dispatch lookup opts"
  by (auto simp: dispatch_def checkDomains_nonempty filter_id_conv)

lemma fan_in_inv_init: "fan_in_inv P opts (main_init P opts fs)"
  by (simp add: fan_in_inv_def main_init_def dispatch_ok dispatch_nonempty dispatched_results_def)

lemma all_empty_filter: "length (filter (\<lambda>g. g \<noteq> []) gs) = 0 \<Longrightarrow> g \<in> set gs \<Longrightarrow> g = []"
  by (induction gs) (auto split: if_splits)

lemma inv_nth_ok: "fan_in_inv P opts s \<Longrightarrow> i < length (goroutines s) \<Longrightarrow> goroutine_ok (goroutines s ! i)"
  by (simp add: fan_in_inv_def)

lemma fan_in_invI:
  "\<lbrakk>\<forall>g \<in> set (goroutines s). goroutine_ok g;
    wg s = int (length (filter (\<lambda>g. g \<noteq> []) (goroutines s)));
    closed s \<Longrightarrow> wg s = 0;
    mset (received s) + mset (concat (map sends_of (goroutines s)))
      = mset (dispatched_results (LookupHost P) opts);
    status s \<noteq> Panicked;
    status s \<noteq> Running \<Longrightarrow> closed s\<rbrakk> \<Longrightarrow> fan_in_inv P opts s"
  by (simp add: fan_in_inv_def)

lemma fan_in_invD:
  assumes "fan_in_inv P opts s"
  shows "\<forall>g \<in> set (goroutines s). goroutine_ok g"
    and "wg s = int (length (filter (\<lambda>g. g \<noteq> []) (goroutines s)))"
    and "closed s \<Longrightarrow> wg s = 0"
    and "mset (received s) + mset (concat (map sends_of (goroutines s)))
          = mset (dispatched_results (LookupHost P) opts)"
    and "status s \<noteq> Panicked"
    and "status s \<noteq> Running \<Longrightarrow> closed s"
  using assms unfolding fan_in_inv_def by blast+

lemma nonempty_counted:
  "i < length gs \<Longrightarrow> gs ! i \<noteq> [] \<Longrightarrow> 0 < length (filter (\<lambda>g. g \<noteq> []) gs)"
proof -
  assume "i < length gs" and "gs ! i \<noteq> []"
  then have "gs ! i \<in> set (filter (\<lambda>g. g \<noteq> []) gs)" by simp
  then show ?thesis by (cases "filter (\<lambda>g. g \<noteq> []) gs") simp_all
qed

lemma inv_print:
  assumes inv: "fan_in_inv P opts s" and run: "status s = Running"
    and i: "i < length (goroutines s)" and g: "goroutines s ! i = Print msg # rest"
  shows "fan_in_inv P opts (s\<lparr>goroutines := (goroutines s)[i := rest], stdout := stdout s @ [msg]\<rparr>)"
proof -
  note I = fan_in_invD [OF inv]
  let ?gs = "goroutines s"
  have "goroutine_ok (?gs ! i)" using I(1) i by simp
  then have aw: "awaiting_send rest" using g by (simp add: goroutine_ok_Print)
  then have ne: "rest \<noteq> []" by auto
  have okr: "goroutine_ok rest" using aw by (simp add: goroutine_ok_def)
  have cnt: "length (filter (\<lambda>g. g \<noteq> []) (?gs[i := rest])) = length (filter (\<lambda>g. g \<noteq> []) ?gs)"
    using filter_length_update [of i ?gs "\<lambda>g. g \<noteq> []" rest] i g ne by simp
  have ms: "mset (concat (map sends_of (?gs[i := rest]))) = mset (concat (map sends_of ?gs))"
    using mset_concat_map_update [of i ?gs sends_of rest] i g by simp
  show ?thesis
  proof (rule fan_in_invI)
    show "\<forall>g\<in>set (goroutines (s\<lparr>goroutines := ?gs[i := rest], stdout := stdout s @ [msg]\<rparr>)). goroutine_ok g"
      using set_update_ok [OF I(1) okr] by simp
    show "wg (s\<lparr>goroutines := ?gs[i := rest], stdout := stdout s @ [msg]\<rparr>)
          = int (length (filter (\<lambda>g. g \<noteq> []) (goroutines (s\<lparr>goroutines := ?gs[i := rest], stdout := stdout s @ [msg]\<rparr>))))"
      using I(2) cnt by simp
    show "mset (received (s\<lparr>goroutines := ?gs[i := rest], stdout := stdout s @ [msg]\<rparr>))
          + mset (concat (map sends_of (goroutines (s\<lparr>goroutines := ?gs[i := rest], stdout := stdout s @ [msg]\<rparr>))))
          = mset (dispatched_results (LookupHost P) opts)"
      using I(4) ms by simp
    show "status (s\<lparr>goroutines := ?gs[i := rest], stdout := stdout s @ [msg]\<rparr>) \<noteq> Panicked"
      using run by simp
    show "wg (s\<lparr>goroutines := ?gs[i := rest], stdout := stdout s @ [msg]\<rparr>) = 0"
      if "closed (s\<lparr>goroutines := ?gs[i := rest], stdout := stdout s @ [msg]\<rparr>)"
      using that I(3) by simp
    show "closed (s\<lparr>goroutines := ?gs[i := rest], stdout := stdout s @ [msg]\<rparr>)"
      if "status (s\<lparr>goroutines := ?gs[i := rest], stdout := stdout s @ [msg]\<rparr>) \<noteq> Running"
      using that run by simp
  qed
qed

lemma inv_send:
  assumes inv: "fan_in_inv P opts s" and run: "status s = Running"
    and i: "i < length (goroutines s)" and g: "goroutines s ! i = Send result # rest"
  shows "fan_in_inv P opts (main_receive opts result (s\<lparr>goroutines := (goroutines s)[i := rest]\<rparr>))"
proof -
  note I = fan_in_invD [OF inv]
  let ?gs = "goroutines s"
  have "goroutine_ok (?gs ! i)" using I(1) i by simp
  then have r: "rest = [WgDone]" using g by (simp add: goroutine_ok_Send)
  have okr: "goroutine_ok rest" using r by (simp add: goroutine_ok_def)
  have cnt: "length (filter (\<lambda>g. g \<noteq> []) (?gs[i := rest])) = length (filter (\<lambda>g. g \<noteq> []) ?gs)"
    using filter_length_update [of i ?gs "\<lambda>g. g \<noteq> []" rest] i g r by simp
  have ms: "mset (concat (map sends_of (?gs[i := rest]))) + {#result#} = mset (concat (map sends_of ?gs))"
    using mset_concat_map_update [of i ?gs sends_of rest] i g r by simp
  let ?s' = "main_receive opts result (s\<lparr>goroutines := ?gs[i := rest]\<rparr>)"
  show ?thesis
  proof (rule fan_in_invI)
    show "\<forall>g\<in>set (goroutines ?s'). goroutine_ok g"
      using set_update_ok [OF I(1) okr] by simp
    show "wg ?s' = int (length (filter (\<lambda>g. g \<noteq> []) (goroutines ?s')))"
      using I(2) cnt by simp
    show "mset (received ?s') + mset (concat (map sends_of (goroutines ?s')))
          = mset (dispatched_results (LookupHost P) opts)"
      using I(4) ms [symmetric] by simp
    show "status ?s' \<noteq> Panicked" using run by simp
    show "wg ?s' = 0" if "closed ?s'" using that I(3) by simp
    show "closed ?s'" if "status ?s' \<noteq> Running" using that run by simp
  qed
qed

lemma inv_done:
  assumes inv: "fan_in_inv P opts s" and run: "status s = Running"
    and i: "i < length (goroutines s)" and g: "goroutines s ! i = WgDone # rest"
  shows "fan_in_inv P opts (s\<lparr>goroutines := (goroutines s)[i := rest], wg := wg s - 1\<rparr>)"
proof -
  note I = fan_in_invD [OF inv]
  let ?gs = "goroutines s"
  have "goroutine_ok (?gs ! i)" using I(1) i by simp
  then have r: "rest = []" using g by (simp add: goroutine_ok_WgDone)
  have okr: "goroutine_ok rest" using r by (simp add: goroutine_ok_def)
  have cnt: "length (filter (\<lambda>g. g \<noteq> []) (?gs[i := rest])) + 1 = length (filter (\<lambda>g. g \<noteq> []) ?gs)"
    using filter_length_update [of i ?gs "\<lambda>g. g \<noteq> []" rest] i g r by simp
  have ms: "mset (concat (map sends_of (?gs[i := rest]))) = mset (concat (map sends_of ?gs))"
    using mset_concat_map_update [of i ?gs sends_of rest] i g r by simp
  have pos: "wg s \<noteq> 0" using I(2) cnt by (cases "filter (\<lambda>g. g \<noteq> []) (goroutines s)") simp_all
  let ?s' = "s\<lparr>goroutines := ?gs[i := rest], wg := wg s - 1\<rparr>"
  show ?thesis
  proof (rule fan_in_invI)
    show "\<forall>g\<in>set (goroutines ?s'). goroutine_ok g"
      using set_update_ok [OF I(1) okr] by simp
    show "wg ?s' = int (length (filter (\<lambda>g. g \<noteq> []) (goroutines ?s')))"
      using I(2) cnt [symmetric] by simp
    show "mset (received ?s') + mset (concat (map sends_of (goroutines ?s')))
          = mset (dispatched_results (LookupHost P) opts)"
      using I(4) ms by simp
    show "status ?s' \<noteq> Panicked" using run by simp
    show "wg ?s' = 0" if "closed ?s'" using that I(3) pos by simp
    show "closed ?s'" if "status ?s' \<noteq> Running" using that run by simp
  qed
qed

lemma inv_no_panic:
  assumes inv: "fan_in_inv P opts s"
    and i: "i < length (goroutines s)" and g: "goroutines s ! i = e # rest"
  shows "0 < wg s" and "\<not> closed s"
proof -
  note I = fan_in_invD [OF inv]
  have "0 < length (filter (\<lambda>g. g \<noteq> []) (goroutines s))"
    using i g by (intro nonempty_counted [of i]) simp_all
  then show "0 < wg s" using I(2) by simp
  then show "\<not> closed s" using I(3) by auto
qed

lemma inv_close:
  assumes inv: "fan_in_inv P opts s" and run: "status s = Running" and z: "wg s = 0"
  shows "fan_in_inv P opts (s\<lparr>closed := True\<rparr>)"
proof -
  note I = fan_in_invD [OF inv]
  show ?thesis
  proof (rule fan_in_invI)
    show "\<forall>g\<in>set (goroutines (s\<lparr>closed := True\<rparr>)). goroutine_ok g" using I(1) by simp
    show "wg (s\<lparr>closed := True\<rparr>) = int (length (filter (\<lambda>g. g \<noteq> []) (goroutines (s\<lparr>closed := True\<rparr>))))"
      using I(2) by simp
    show "mset (received (s\<lparr>closed := True\<rparr>)) + mset (concat (map sends_of (goroutines (s\<lparr>closed := True\<rparr>))))
          = mset (dispatched_results (LookupHost P) opts)"
      using I(4) by simp
    show "status (s\<lparr>closed := True\<rparr>) \<noteq> Panicked" using run by simp
    show "wg (s\<lparr>closed := True\<rparr>) = 0" using z by simp
    show "closed (s\<lparr>closed := True\<rparr>)" by simp
  qed
qed

lemma inv_finish:
  assumes inv: "fan_in_inv P opts s" and cl: "closed s"
  shows "fan_in_inv P opts (main_finish P opts s)"
proof -
  note I = fan_in_invD [OF inv]
  obtain code where st: "status (main_finish P opts s) = Exited code"
    using main_finish_status by blast
  show ?thesis
  proof (rule fan_in_invI)
    show "\<forall>g\<in>set (goroutines (main_finish P opts s)). goroutine_ok g" using I(1) by simp
    show "wg (main_finish P opts s) = int (length (filter (\<lambda>g. g \<noteq> []) (goroutines (main_finish P opts s))))"
      using I(2) by simp
    show "mset (received (main_finish P opts s)) + mset (concat (map sends_of (goroutines (main_finish P opts s))))
          = mset (dispatched_results (LookupHost P) opts)"
      using I(4) by simp
    show "status (main_finish P opts s) \<noteq> Panicked" using st by simp
    show "wg (main_finish P opts s) = 0" using I(3) [OF cl] by simp
    show "closed (main_finish P opts s)" using cl by simp
  qed
qed

lemma fan_in_inv_step:
  assumes "step P opts s s'" and "fan_in_inv P opts s"
  shows "fan_in_inv P opts s'"
  using assms
proof (induction rule: step.induct)
  case (goroutine_print s i msg rest)
  show ?case by (rule inv_print [OF goroutine_print(4,1,2,3)])
next
  case (channel_send s i result rest)
  show ?case by (rule inv_send [OF channel_send(5,1,2,3)])
next
  case (send_on_closed s i result rest)
  show ?case using inv_no_panic(2) [OF send_on_closed(5,2,3)] send_on_closed(4) by simp
next
  case (goroutine_done s i rest)
  show ?case by (rule inv_done [OF goroutine_done(5,1,2,3)])
next
  case (negative_counter s i rest)
  show ?case using inv_no_panic(1) [OF negative_counter(5,2,3)] negative_counter(4) by simp
next
  case (close_results s)
  show ?case by (rule inv_close [OF close_results(4,1,2)])
next
  case (range_ends s)
  show ?case by (rule inv_finish [OF range_ends(3,2)])
qed

lemma reachable_inv: "reachable P opts fs s \<Longrightarrow> fan_in_inv P opts s"
  unfolding reachable_def
  by (induction rule: rtranclp_induct) (auto intro: fan_in_inv_init fan_in_inv_step)

lemma sum_list_map_update:
  fixes f :: "'a \<Rightarrow> nat"
  shows "i < length xs \<Longrightarrow> sum_list (map f (xs[i := y])) + f (xs ! i) = sum_list (map f xs) + f y"
proof (induction xs arbitrary: i)
  case Nil then show ?case by simp
next
  case (Cons x xs)
  show ?case
  proof (cases i)
    case 0 then show ?thesis by simp
  next
    case (Suc j)
    with Cons.prems have "j < length xs" by simp
    from Cons.IH [OF this] show ?thesis using Suc by simp
  qed
qed

lemma lengths_tail:
  "i < length gs \<Longrightarrow> gs ! i = e # rest \<Longrightarrow>
   Suc (sum_list (map length (gs[i := rest]))) = sum_list (map length gs)"
  using sum_list_map_update [of i gs length rest] by simp

lemma step_decreases: "step P opts s s' \<Longrightarrow> remaining s' < remaining s"
proof (induction rule: step.induct)
  case (goroutine_print s i msg rest)
  then show ?case using lengths_tail [of i "goroutines s" "Print msg" rest]
    by (simp add: remaining_def)
next
  case (channel_send s i result rest)
  then show ?case using lengths_tail [of i "goroutines s" "Send result" rest]
    by (simp add: remaining_def)
next
  case (send_on_closed s i result rest)
  then show ?case by (simp add: remaining_def)
next
  case (goroutine_done s i rest)
  then show ?case using lengths_tail [of i "goroutines s" WgDone rest]
    by (simp add: remaining_def)
next
  case (negative_counter s i rest)
  then show ?case by (simp add: remaining_def)
next
  case (close_results s)
  then show ?case by (simp add: remaining_def)
next
  case (range_ends s)
  obtain code where "status (main_finish P opts s) = Exited code"
    using main_finish_status by blast
  then show ?case using range_ends by (simp add: remaining_def)
qed

lemma all_empty_wg_zero:
  assumes "fan_in_inv P opts s" and "\<forall>g \<in> set (goroutines s). g = []"
  shows "wg s = 0"
proof -
  have "filter (\<lambda>g. g \<noteq> []) (goroutines s) = []" using assms(2) by (simp add: filter_empty_conv)
  then show ?thesis using fan_in_invD(2) [OF assms(1)] by simp
qed

lemma progress:
  assumes inv: "fan_in_inv P opts s" and run: "status s = Running"
  shows "\<exists>s'. step P opts s s'"
proof (cases "\<forall>g \<in> set (goroutines s). g = []")
  case True
  then have z: "wg s = 0" using all_empty_wg_zero [OF inv] by simp
  show ?thesis
  proof (cases "closed s")
    case True
    show ?thesis by (rule exI, rule step.range_ends [OF run True])
  next
    case False
    show ?thesis by (rule exI, rule step.close_results [OF run z False])
  qed
next
  case False
  then obtain g where "g \<in> set (goroutines s)" and "g \<noteq> []" by auto
  then obtain i where i: "i < length (goroutines s)" and ne: "goroutines s ! i \<noteq> []"
    by (auto simp: in_set_conv_nth)
  then obtain e rest where g: "goroutines s ! i = e # rest" by (cases "goroutines s ! i") auto
  show ?thesis
  proof (cases e)
    case (Print msg)
    show ?thesis by (rule exI, rule step.goroutine_print [OF run i g [unfolded Print]])
  next
    case (Send result)
    show ?thesis
    proof (cases "closed s")
      case True
      show ?thesis by (rule exI, rule step.send_on_closed [OF run i g [unfolded Send] True])
    next
      case False
      show ?thesis by (rule exI, rule step.channel_send [OF run i g [unfolded Send] False])
    qed
  next
    case WgDone
    show ?thesis
    proof (cases "0 < wg s")
      case True
      show ?thesis by (rule exI, rule step.goroutine_done [OF run i g [unfolded WgDone] True])
    next
      case False
      then have le: "wg s \<le> 0" by simp
      show ?thesis by (rule exI, rule step.negative_counter [OF run i g [unfolded WgDone] le])
    qed
  qed
qed

lemma wg_zero_all_empty:
  assumes "fan_in_inv P opts s" and "wg s = 0"
  shows "\<forall>g \<in> set (goroutines s). g = []"
proof -
  have "filter (\<lambda>g. g \<noteq> []) (goroutines s) = []" using fan_in_invD(2) [OF assms(1)] assms(2) by simp
  then show ?thesis by (simp add: filter_empty_conv)
qed

lemma concat_all_empty: "\<forall>g \<in> set gs. g = [] \<Longrightarrow> concat (map f gs) = concat (map (\<lambda>_. f []) gs)"
  by (induction gs) simp_all

lemma closed_complete:
  assumes inv: "fan_in_inv P opts s" and cl: "closed s"
  shows "(\<forall>g \<in> set (goroutines s). g = [])"
    and "mset (received s) = mset (dispatched_results (LookupHost P) opts)"
proof -
  have z: "wg s = 0" using fan_in_invD(3) [OF inv cl] .
  show e: "\<forall>g \<in> set (goroutines s). g = []" by (rule wg_zero_all_empty [OF inv z])
  have c: "concat (map sends_of (goroutines s)) = []"
    using e by (auto simp: concat_eq_Nil_conv)
  show "mset (received s) = mset (dispatched_results (LookupHost P) opts)"
    using fan_in_invD(4) [OF inv] unfolding c by simp
qed

lemma sends_of_checkDomains_single:
  "sends_of (checkDomains lookup name [tld]) = [probe_result lookup (name, tld)]"
  by (simp add: checkDomains_def probe_result_def Let_def split: prod.split option.split)

lemma dispatched_results_eq:
  "dispatched_results lookup opts = map (probe_result lookup) (probes opts)"
proof -
  have "concat (map sends_of (map (\<lambda>(name, tld). checkDomains lookup name [tld]) ps))
        = map (probe_result lookup) ps" for ps
    by (induction ps) (auto simp: sends_of_checkDomains_single)
  then show ?thesis by (simp add: dispatched_results_def dispatch_def)
qed

lemma probes_product: "probes opts = List.product (NamesList opts) (TLDsList opts)"
proof -
  have "concat (map (\<lambda>name. map (Pair name) ts) ns) = List.product ns ts" for ns ts :: "string list"
    by (induction ns) simp_all
  then show ?thesis by (simp add: probes_def)
qed

lemma length_probes: "length (probes opts) = length (NamesList opts) * length (TLDsList opts)"
  by (simp add: probes_product)

lemma count_list_product:
  "count_list (List.product ns ts) (n, t) = count_list ns n * count_list ts t"
proof -
  have inner: "count_list (map (Pair x) ts) (n, t) = (if x = n then count_list ts t else 0)" for x
    by (induction ts) auto
  show ?thesis by (induction ns) (auto simp: inner)
qed

lemma final_received:
  assumes "reachable P opts fs s" and "status s \<noteq> Running"
  shows "mset (received s) = mset (map (probe_result (LookupHost P)) (probes opts))"
proof -
  have inv: "fan_in_inv P opts s" using assms(1) by (rule reachable_inv)
  have "closed s" using fan_in_invD(6) [OF inv assms(2)] .
  from closed_complete(2) [OF inv this] show ?thesis by (simp add: dispatched_results_eq)
qed

lemma sum_list_mset_cong:
  fixes w :: "'a \<Rightarrow> nat"
  assumes "mset xs = mset ys"
  shows "sum_list (map w xs) = sum_list (map w ys)"
proof -
  have "sum_list (map w xs) = sum_mset (image_mset w (mset xs))"
    by (metis mset_map sum_mset_sum_list)
  also have "\<dots> = sum_mset (image_mset w (mset ys))" using assms by simp
  also have "\<dots> = sum_list (map w ys)" by (metis mset_map sum_mset_sum_list)
  finally show ?thesis .
qed

lemma length_verdicts_for:
  "length (verdicts_for rs name tld)
   = sum_list (map (\<lambda>r. if Name r = name then length (filter (\<lambda>v. TLDName v = tld) (TLDList r)) else 0) rs)"
  by (induction rs) (simp_all add: verdicts_for_def)

lemma set_verdicts_for:
  "set (verdicts_for rs name tld) = {v. \<exists>r \<in> set rs. Name r = name \<and> v \<in> set (TLDList r) \<and> TLDName v = tld}"
  by (auto simp: verdicts_for_def)

lemma probe_result_Name [simp]: "Name (probe_result lookup (n, t)) = n"
  by (simp add: probe_result_def split: prod.split option.split)

lemma probe_result_TLDList:
  "TLDList (probe_result lookup (n, t)) =
     (if snd (isDomainNameAvailable lookup (n @ ''.'' @ t)) = None
      then [\<lparr>TLDName = t, IsAvailable = fst (isDomainNameAvailable lookup (n @ ''.'' @ t))\<rparr>] else [])"
  by (auto simp: probe_result_def split: prod.split option.split)

lemma weight_probe_result:
  assumes "snd (isDomainNameAvailable lookup (name @ ''.'' @ tld)) = None"
  shows "(if Name (probe_result lookup p) = name
          then length (filter (\<lambda>v. TLDName v = tld) (TLDList (probe_result lookup p))) else 0)
         = (if p = (name, tld) then 1 else 0)"
  using assms by (cases p) (auto simp: probe_result_TLDList)

lemma sum_indicator_count: "sum_list (map (\<lambda>p. if p = x then 1 else 0) ps) = count_list ps x"
  by (induction ps) auto

lemma verdicts_for_final:
  assumes r: "reachable P opts fs s" and st: "status s \<noteq> Running"
    and ok: "snd (isDomainNameAvailable (LookupHost P) (name @ ''.'' @ tld)) = None"
  shows "verdicts_for (received s) name tld
         = replicate (count_list (NamesList opts) name * count_list (TLDsList opts) tld)
             \<lparr>TLDName = tld, IsAvailable = fst (isDomainNameAvailable (LookupHost P) (name @ ''.'' @ tld))\<rparr>"
proof -
  let ?L = "LookupHost P"
  let ?v = "\<lparr>TLDName = tld, IsAvailable = fst (isDomainNameAvailable ?L (name @ ''.'' @ tld))\<rparr>"
  let ?w = "\<lambda>r. if Name r = name then length (filter (\<lambda>v. TLDName v = tld) (TLDList r)) else 0"
  have m: "mset (received s) = mset (map (probe_result ?L) (probes opts))"
    using final_received [OF r st] .
  have "length (verdicts_for (received s) name tld) = sum_list (map ?w (received s))"
    by (rule length_verdicts_for)
  also have "\<dots> = sum_list (map ?w (map (probe_result ?L) (probes opts)))"
    by (rule sum_list_mset_cong [OF m])
  also have "\<dots> = sum_list (map (\<lambda>p. if p = (name, tld) then 1 else 0) (probes opts))"
    by (simp add: o_def weight_probe_result [OF ok])
  also have "\<dots> = count_list (NamesList opts) name * count_list (TLDsList opts) tld"
    by (simp add: sum_indicator_count probes_product count_list_product)
  finally have len: "length (verdicts_for (received s) name tld)
                     = count_list (NamesList opts) name * count_list (TLDsList opts) tld" .
  have "set (received s) = set (map (probe_result ?L) (probes opts))"
    using m by (rule mset_eq_setD)
  then have "\<forall>v \<in> set (verdicts_for (received s) name tld). v = ?v"
    by (auto simp: set_verdicts_for probe_result_TLDList split: if_splits)
  then have "replicate (length (verdicts_for (received s) name tld)) ?v = verdicts_for (received s) name tld"
    by (rule replicate_length_same)
  then show ?thesis using len by simp
qed

lemma count_names_final:
  assumes r: "reachable P opts fs s" and st: "status s \<noteq> Running"
  shows "count_list (map Name (received s)) name
         = count_list (NamesList opts) name * length (TLDsList opts)"
proof -
  let ?L = "LookupHost P"
  have m: "mset (received s) = mset (map (probe_result ?L) (probes opts))"
    using final_received [OF r st] .
  have names: "map Name (map (probe_result ?L) ps) = map fst ps" for ps
    by (induction ps) auto
  have "count_list (map Name (received s)) name = count (mset (map Name (received s))) name"
    by (simp only: count_mset)
  also have "\<dots> = count (mset (map Name (map (probe_result ?L) (probes opts)))) name"
    using m by (metis mset_map)
  also have "\<dots> = count_list (map fst (probes opts)) name"
    by (simp only: count_mset names)
  also have "\<dots> = count_list (NamesList opts) name * length (TLDsList opts)"
  proof -
    have inner: "count_list (map (\<lambda>t. x) ts) name = (if x = name then length ts else 0)"
      for x and ts :: "string list"
      by (induction ts) auto
    have "count_list (map fst (List.product ns ts)) name = count_list ns name * length ts"
      for ns ts :: "string list"
      by (induction ns) (auto simp: inner o_def)
    then show ?thesis by (simp add: probes_product)
  qed
  finally show ?thesis .
qed

lemma run_tlds_ok_verdicts:
  "run_tlds lookup name tldsList acc = Inr tlds \<Longrightarrow>
   tlds = acc @ map (\<lambda>tld. \<lparr>TLDName = tld, IsAvailable = fst (isDomainNameAvailable lookup (name @ ''.'' @ tld))\<rparr>) tldsList"
proof (induction tldsList arbitrary: acc)
  case Nil then show ?case by simp
next
  case (Cons tld rest)
  obtain a e where p: "isDomainNameAvailable lookup (name @ ''.'' @ tld) = (a, e)"
    by (cases "isDomainNameAvailable lookup (name @ ''.'' @ tld)")
  show ?case
  proof (cases e)
    case None
    then have "run_tlds lookup name rest (acc @ [\<lparr>TLDName = tld, IsAvailable = a\<rparr>]) = Inr tlds"
      using Cons.prems p by simp
    from Cons.IH [OF this] show ?thesis using p by simp
  next
    case (Some err)
    then show ?thesis using Cons.prems p by simp
  qed
qed

lemma run_names_ok_names:
  "run_names lookup tldsList names acc = (Results, None) \<Longrightarrow>
   map Name Results = map Name acc @ filter (\<lambda>n. n \<noteq> []) names"
proof (induction names arbitrary: acc)
  case Nil then show ?case by simp
next
  case (Cons name names)
  then show ?case by (auto split: if_splits sum.splits)
qed

lemma run_ok_names:
  "run lookup opts = (Results, None) \<Longrightarrow> map Name Results = filter (\<lambda>n. n \<noteq> []) (NamesList opts)"
  using run_names_ok_names [of lookup "TLDsList opts" "NamesList opts" "[]" Results]
  by (simp add: run_def)

lemma prints_of_Cons: "set (prints_of rest) \<subseteq> set (prints_of (e # rest))"
  by (auto simp: prints_of_def)

lemma prints_of_Print: "msg \<in> set (prints_of (Print msg # rest))"
  by (simp add: prints_of_def)

lemma quiet_update:
  assumes all: "\<forall>g \<in> set gs. set (prints_of g) \<subseteq> D" and i: "i < length gs" and g: "gs ! i = e # rest"
  shows "\<forall>g \<in> set (gs[i := rest]). set (prints_of g) \<subseteq> D"
proof
  fix g assume "g \<in> set (gs[i := rest])"
  then have "g = rest \<or> g \<in> set gs" using set_update_subset_insert [of gs i rest] by auto
  then show "set (prints_of g) \<subseteq> D"
  proof
    assume "g = rest"
    moreover have "set (prints_of (gs ! i)) \<subseteq> D" using all i by simp
    ultimately show ?thesis using prints_of_Cons [of rest e] g by auto
  next
    assume "g \<in> set gs" then show ?thesis using all by simp
  qed
qed

lemma quiet_inv_init: "quiet_inv P opts fs (main_init P opts fs)"
  by (auto simp: quiet_inv_def main_init_def diagnostics_def)

lemma quiet_inv_step:
  assumes "step P opts s s'" and "quiet_inv P opts fs s"
  shows "quiet_inv P opts fs s'"
  using assms
proof (induction rule: step.induct)
  case (goroutine_print s i msg rest)
  let ?D = "set (diagnostics (LookupHost P) opts)"
  have all: "\<forall>g \<in> set (goroutines s). set (prints_of g) \<subseteq> ?D"
    using goroutine_print(4) by (simp add: quiet_inv_def)
  have "set (prints_of (goroutines s ! i)) \<subseteq> ?D" using all goroutine_print(2) by simp
  then have m: "msg \<in> ?D" using goroutine_print(3) prints_of_Print [of msg rest] by auto
  show ?case using quiet_update [OF all goroutine_print(2,3)] m goroutine_print(1,4)
    by (simp add: quiet_inv_def)
next
  case (channel_send s i result rest)
  let ?D = "set (diagnostics (LookupHost P) opts)"
  have all: "\<forall>g \<in> set (goroutines s). set (prints_of g) \<subseteq> ?D"
    using channel_send(5) by (simp add: quiet_inv_def)
  show ?case using quiet_update [OF all channel_send(2,3)] channel_send(1,5)
    by (simp add: quiet_inv_def main_receive_def)
next
  case (send_on_closed s i result rest)
  then show ?case by (simp add: quiet_inv_def)
next
  case (goroutine_done s i rest)
  let ?D = "set (diagnostics (LookupHost P) opts)"
  have all: "\<forall>g \<in> set (goroutines s). set (prints_of g) \<subseteq> ?D"
    using goroutine_done(5) by (simp add: quiet_inv_def)
  show ?case using quiet_update [OF all goroutine_done(2,3)] goroutine_done(1,5)
    by (simp add: quiet_inv_def)
next
  case (negative_counter s i rest)
  then show ?case by (simp add: quiet_inv_def)
next
  case (close_results s)
  then show ?case by (simp add: quiet_inv_def)
next
  case (range_ends s)
  obtain code where "status (main_finish P opts s) = Exited code"
    using main_finish_status by blast
  then show ?case using range_ends by (simp add: quiet_inv_def)
qed

lemma reachable_quiet: "reachable P opts fs s \<Longrightarrow> quiet_inv P opts fs s"
  unfolding reachable_def
  by (induction rule: rtranclp_induct) (auto intro: quiet_inv_init quiet_inv_step)

lemma exit_step:
  assumes st: "step P opts s s'" and inv: "fan_in_inv P opts s" and ex: "status s' \<noteq> Running"
  shows "s' = main_finish P opts s \<and> closed s"
  using st inv ex
proof (induction rule: step.induct)
  case (send_on_closed s i result rest)
  then show ?case using inv_no_panic(2) [OF send_on_closed(5,2,3)] by simp
next
  case (negative_counter s i rest)
  then show ?case using inv_no_panic(1) [OF negative_counter(5,2,3)] by simp
qed simp_all

lemma spool_twice:
  assumes "SpoolOutputToFile P fs name result j = (fs', out, r)"
  shows "SpoolOutputToFile P fs' name result j = (fs', out, r)"
  using assms by (auto simp: SpoolOutputToFile_def split: option.splits prod.splits)

lemma spool_any_fs:
  assumes "SpoolOutputToFile P fs1 name result j = (fs1', out1, r1)"
    and "SpoolOutputToFile P fs2 name result j = (fs2', out2, r2)"
  shows "out1 = out2 \<and> r1 = r2 \<and> (create_fails P name = None \<longrightarrow> fs1' name = fs2' name)"
  using assms by (auto simp: SpoolOutputToFile_def split: option.splits prod.splits)

lemma awaiting_send_shape: "awaiting_send g \<Longrightarrow> \<exists>msgs r. g = map Print msgs @ [Send r, WgDone]"
proof (induction g)
  case Nil
  then show ?case by simp
next
  case (Cons e rest)
  show ?case
  proof (cases e)
    case (Print msg)
    then have "awaiting_send rest" using Cons.prems by simp
    then obtain msgs r where "rest = map Print msgs @ [Send r, WgDone]" using Cons.IH by blast
    then have "e # rest = map Print (msg # msgs) @ [Send r, WgDone]" using Print by simp
    then show ?thesis by blast
  next
    case (Send r)
    then have "rest = [WgDone]" using Cons.prems by (simp add: awaiting_send_Cons_Send)
    then have "e # rest = map Print [] @ [Send r, WgDone]" using Send by simp
    then show ?thesis by blast
  next
    case WgDone
    then show ?thesis using Cons.prems by simp
  qed
qed

lemma main_finish_same:
  assumes "received s1 = received s2" and "files s1 = files s2"
  shows "files (main_finish P opts s1) = files (main_finish P opts s2)
         \<and> status (main_finish P opts s1) = status (main_finish P opts s2)
         \<and> drop (length (stdout s1)) (stdout (main_finish P opts s1))
             = drop (length (stdout s2)) (stdout (main_finish P opts s2))"
  using assms by (simp add: main_finish_def split: sum.split prod.split option.split)

lemma main_receive_prints:
  "stdout (main_receive opts result s) = stdout s @ (if Json opts then [] else result_lines result)"
  by (simp add: main_receive_def)

lemma step_appends:
  assumes "step P opts s s'"
  shows "\<exists>new. received s' = received s @ new
           \<and> mset new + mset (concat (map sends_of (goroutines s')))
               = mset (concat (map sends_of (goroutines s)))"
  using assms
proof (induction rule: step.induct)
  case (goroutine_print s i msg rest)
  have "mset (concat (map sends_of ((goroutines s)[i := rest]))) = mset (concat (map sends_of (goroutines s)))"
    using mset_concat_map_update [of i "goroutines s" sends_of rest] goroutine_print(2,3) by simp
  then show ?case by (intro exI [of _ "[]"]) simp
next
  case (channel_send s i result rest)
  have "mset (concat (map sends_of ((goroutines s)[i := rest]))) + {#result#}
        = mset (concat (map sends_of (goroutines s)))"
    using mset_concat_map_update [of i "goroutines s" sends_of rest] channel_send(2,3) by simp
  then show ?case by (intro exI [of _ "[result]"]) simp
next
  case (send_on_closed s i result rest)
  show ?case by (intro exI [of _ "[]"]) simp
next
  case (goroutine_done s i rest)
  have "mset (concat (map sends_of ((goroutines s)[i := rest]))) = mset (concat (map sends_of (goroutines s)))"
    using mset_concat_map_update [of i "goroutines s" sends_of rest] goroutine_done(2,3) by simp
  then show ?case by (intro exI [of _ "[]"]) simp
next
  case (negative_counter s i rest)
  show ?case by (intro exI [of _ "[]"]) simp
next
  case (close_results s)
  show ?case by (intro exI [of _ "[]"]) simp
next
  case (range_ends s)
  show ?case by (intro exI [of _ "[]"]) simp
qed

lemma steps_append:
  assumes "(step P opts)\<^sup>*\<^sup>* s s'"
  shows "\<exists>new. received s' = received s @ new"
  using assms
proof (induction rule: rtranclp_induct)
  case base
  show ?case by simp
next
  case (step y z)
  then obtain n1 where n1: "received y = received s @ n1" by blast
  obtain n2 where "received z = received y @ n2" using step_appends [OF step(2)] by blast
  then have "received z = received s @ (n1 @ n2)" using n1 by simp
  then show ?case by blast
qed

lemma checkDomains_single:
  "checkDomains lookup name [tld] =
     (case isDomainNameAvailable lookup (name @ ''.'' @ tld) of
        (available, None) \<Rightarrow>
          [Send \<lparr>Name = name, TLDList = [\<lparr>TLDName = tld, IsAvailable = available\<rparr>]\<rparr>, WgDone]
      | (available, Some err) \<Rightarrow>
          [Print (''Error checking availability for domain '' @ (name @ ''.'' @ tld) @ '': ''
                  @ error_string err),
           Send \<lparr>Name = name, TLDList = []\<rparr>, WgDone])"
  by (simp add: checkDomains_def Let_def split: prod.split option.split)

lemma checkDomains_single_lookup:
  "checkDomains lookup name [tld] =
     (case lookup (name @ ''.'' @ tld) of
        Inr addrs \<Rightarrow>
          [Send \<lparr>Name = name, TLDList = [\<lparr>TLDName = tld, IsAvailable = False\<rparr>]\<rparr>, WgDone]
      | Inl (DNS e) \<Rightarrow>
          [Send \<lparr>Name = name, TLDList = [\<lparr>TLDName = tld, IsAvailable = True\<rparr>]\<rparr>, WgDone]
      | Inl (OtherError msg) \<Rightarrow>
          [Print (''Error checking availability for domain '' @ (name @ ''.'' @ tld) @ '': '' @ msg),
           Send \<lparr>Name = name, TLDList = []\<rparr>, WgDone])"
  by (simp add: checkDomains_def isDomainNameAvailable_def Let_def split: sum.split go_error.split)

text \<open>The definitions unfolded when a concrete run is evaluated.\<close>

lemmas concrete_defs =
  execute_def main_init_def dispatch_def probes_def checkDomains_def isDomainNameAvailable_def
  main_receive_def result_lines_def main_finish_def platform_with_def options_with_def
  all_registered_def none_exists_def all_time_out_def a_com_fails_def a_com_times_out_def no_such_host_def
  io_timeout_def stand_in_json_def WriteFile_def run_def

section \<open>The claims\<close>

text \<open>
  C1. Classification of the resolver outcome: a definitive not-found outcome gives a
  verdict with available = true, a successful resolution gives available = false, and
  any other resolution failure (a timeout, an unreachable or failing server) gives no
  verdict, the not-found case being told apart from the other DNS errors by the
  classification of the error and not by its mere presence.

  The code does not do this. Here every query times out: the resolver returns a
  \<^verbatim>\<open>*net.DNSError\<close> with \<^verbatim>\<open>IsTimeout\<close> set and \<^verbatim>\<open>IsNotFound\<close> clear, yet
  \<^verbatim>\<open>isDomainNameAvailable\<close> answers "available, no error" and \<^verbatim>\<open>checkDomains\<close> sends the
  verdict available = true.
\<close>

theorem timeout_is_reported_as_available:
  "all_time_out ''example.com'' = Inl (io_timeout ''example.com'')
   \<and> (case io_timeout ''example.com'' of DNS e \<Rightarrow> IsTimeout e \<and> \<not> IsNotFound e | OtherError msg \<Rightarrow> False)
   \<and> isDomainNameAvailable all_time_out ''example.com'' = (True, None)
   \<and> checkDomains all_time_out ''example'' [''com'']
       = [Send \<lparr>Name = ''example'', TLDList = [\<lparr>TLDName = ''com'', IsAvailable = True\<rparr>]\<rparr>, WgDone]"
  by (simp add: concrete_defs)

text \<open>
  C2. A transient error on one (name, tld) probe never aborts the sibling probes or the
  run: the run continues and the errored pair contributes no verdict.

  The run is indeed never aborted, but the errored pair does contribute a verdict. With
  the names \<^verbatim>\<open>a\<close> and \<^verbatim>\<open>b\<close>, the TLD \<^verbatim>\<open>com\<close> and a query for \<^verbatim>\<open>a.com\<close> that times out (a
  \<^verbatim>\<open>*net.DNSError\<close> with \<^verbatim>\<open>IsTimeout\<close> set and \<^verbatim>\<open>IsNotFound\<close> clear), \<^verbatim>\<open>main\<close> runs to its end
  with exit code 0 and \<^verbatim>\<open>b.com\<close> is probed, yet the collected results hold the verdict
  available = true for \<^verbatim>\<open>a.com\<close> and \<^verbatim>\<open>a.com is available\<close> is printed; the sequential
  \<^verbatim>\<open>run\<close> returns the same two results. This is the defect of C1 seen from the run.
\<close>

theorem timed_out_pair_gets_a_verdict:
  "a_com_times_out ''a.com'' = Inl (io_timeout ''a.com'')
   \<and> (case io_timeout ''a.com'' of DNS e \<Rightarrow> IsTimeout e \<and> \<not> IsNotFound e | OtherError msg \<Rightarrow> False)
   \<and> reachable (platform_with a_com_times_out) (options_with [''a'', ''b''] [''com''] False) Map.empty
        (execute (platform_with a_com_times_out) (options_with [''a'', ''b''] [''com''] False) Map.empty
           [Go 0, Go 1, Go 0, Go 1, Closer, RangeEnds])
   \<and> status (execute (platform_with a_com_times_out) (options_with [''a'', ''b''] [''com''] False) Map.empty
           [Go 0, Go 1, Go 0, Go 1, Closer, RangeEnds]) = Exited 0
   \<and> received (execute (platform_with a_com_times_out) (options_with [''a'', ''b''] [''com''] False) Map.empty
           [Go 0, Go 1, Go 0, Go 1, Closer, RangeEnds])
       = [\<lparr>Name = ''a'', TLDList = [\<lparr>TLDName = ''com'', IsAvailable = True\<rparr>]\<rparr>,
          \<lparr>Name = ''b'', TLDList = [\<lparr>TLDName = ''com'', IsAvailable = False\<rparr>]\<rparr>]
   \<and> stdout (execute (platform_with a_com_times_out) (options_with [''a'', ''b''] [''com''] False) Map.empty
           [Go 0, Go 1, Go 0, Go 1, Closer, RangeEnds])
       = [''a.com is available'' @ [CHR 0x0A], ''b.com is not available'' @ [CHR 0x0A]]
   \<and> run a_com_times_out (options_with [''a'', ''b''] [''com''] False)
       = ([\<lparr>Name = ''a'', TLDList = [\<lparr>TLDName = ''com'', IsAvailable = True\<rparr>]\<rparr>,
           \<lparr>Name = ''b'', TLDList = [\<lparr>TLDName = ''com'', IsAvailable = False\<rparr>]\<rparr>], None)"
  by (simp add: reachable_execute) (simp add: concrete_defs)

text \<open>
  C3, as stated: every non-blank input name appears exactly once in the final
  collection, in input order whatever the completion order. It fails for \<^verbatim>\<open>main\<close>: with
  the names \<^verbatim>\<open>a\<close>, \<^verbatim>\<open>b\<close> and the TLDs \<^verbatim>\<open>com\<close>, \<^verbatim>\<open>net\<close> there is a complete run whose
  collected results are those of \<^verbatim>\<open>b.com\<close>, \<^verbatim>\<open>a.com\<close>, \<^verbatim>\<open>a.net\<close>, \<^verbatim>\<open>b.net\<close>, in this order.
\<close>

theorem names_repeat_in_completion_order:
  "NamesList (options_with [''a'', ''b''] [''com'', ''net''] True) = [''a'', ''b'']
   \<and> reachable (platform_with all_registered) (options_with [''a'', ''b''] [''com'', ''net''] True) Map.empty
        (execute (platform_with all_registered) (options_with [''a'', ''b''] [''com'', ''net''] True) Map.empty
           [Go 2, Go 0, Go 1, Go 3, Go 0, Go 1, Go 2, Go 3, Closer, RangeEnds])
   \<and> status (execute (platform_with all_registered) (options_with [''a'', ''b''] [''com'', ''net''] True) Map.empty
           [Go 2, Go 0, Go 1, Go 3, Go 0, Go 1, Go 2, Go 3, Closer, RangeEnds]) = Exited 0
   \<and> map Name (received (execute (platform_with all_registered) (options_with [''a'', ''b''] [''com'', ''net''] True) Map.empty
           [Go 2, Go 0, Go 1, Go 3, Go 0, Go 1, Go 2, Go 3, Closer, RangeEnds]))
       = [''b'', ''a'', ''a'', ''b'']
   \<and> received (execute (platform_with all_registered) (options_with [''a'', ''b''] [''com'', ''net''] True) Map.empty
           [Go 2, Go 0, Go 1, Go 3, Go 0, Go 1, Go 2, Go 3, Closer, RangeEnds])
       = [\<lparr>Name = ''b'', TLDList = [\<lparr>TLDName = ''com'', IsAvailable = False\<rparr>]\<rparr>,
          \<lparr>Name = ''a'', TLDList = [\<lparr>TLDName = ''com'', IsAvailable = False\<rparr>]\<rparr>,
          \<lparr>Name = ''a'', TLDList = [\<lparr>TLDName = ''net'', IsAvailable = False\<rparr>]\<rparr>,
          \<lparr>Name = ''b'', TLDList = [\<lparr>TLDName = ''net'', IsAvailable = False\<rparr>]\<rparr>]"
  by (simp add: reachable_execute) (simp add: concrete_defs)

text \<open>
  C3, amended. In a complete run of the concurrent \<^verbatim>\<open>main\<close> the collected results hold
  one result per (name, tld) probe: a non-blank name that occurs \<open>k\<close> times in the input
  appears \<open>k\<close> times the number of TLDs, whatever the outcomes of its probes. The results
  stand in the order in which they were received: every step of the process leaves the
  values received so far in place and appends, after them, exactly the value that a
  goroutine has just sent (so along any execution the earlier collection is a prefix of
  the later one). The sequential \<^verbatim>\<open>run\<close>, when it returns without error, returns exactly
  one result per non-blank input entry, in input order.
\<close>

theorem names_in_collected_results:
  "(reachable P opts fs s \<and> status s \<noteq> Running \<and> name \<noteq> []
      \<longrightarrow> count_list (map Name (received s)) name
          = count_list (NamesList opts) name * length (TLDsList opts))
   \<and> (step P opts t t'
      \<longrightarrow> (\<exists>new. received t' = received t @ new
            \<and> mset new + mset (concat (map sends_of (goroutines t')))
                = mset (concat (map sends_of (goroutines t)))))
   \<and> ((step P opts)\<^sup>*\<^sup>* t t'' \<longrightarrow> (\<exists>new. received t'' = received t @ new))
   \<and> (run lookup opts = (Results, None)
      \<longrightarrow> map Name Results = filter (\<lambda>n. n \<noteq> []) (NamesList opts))"
  using count_names_final [of P opts fs s name] run_ok_names [of lookup opts Results]
    step_appends [of P opts t t'] steps_append [of P opts t t'']
  by blast

text \<open>The amended C3 at the run above, at the step in which the result of \<^verbatim>\<open>a.com\<close> is
  received after that of \<^verbatim>\<open>b.com\<close>, and at a sequential run of the same input.\<close>

theorem names_in_collected_results_witness:
  "reachable (platform_with all_registered) (options_with [''a'', ''b''] [''com'', ''net''] True) Map.empty
        (execute (platform_with all_registered) (options_with [''a'', ''b''] [''com'', ''net''] True) Map.empty
           [Go 2, Go 0, Go 1, Go 3, Go 0, Go 1, Go 2, Go 3, Closer, RangeEnds])
   \<and> status (execute (platform_with all_registered) (options_with [''a'', ''b''] [''com'', ''net''] True) Map.empty
           [Go 2, Go 0, Go 1, Go 3, Go 0, Go 1, Go 2, Go 3, Closer, RangeEnds]) \<noteq> Running
   \<and> count_list (map Name (received (execute (platform_with all_registered) (options_with [''a'', ''b''] [''com'', ''net''] True) Map.empty
           [Go 2, Go 0, Go 1, Go 3, Go 0, Go 1, Go 2, Go 3, Closer, RangeEnds]))) ''a'' = 2
   \<and> step (platform_with all_registered) (options_with [''a'', ''b''] [''com'', ''net''] True)
        (execute (platform_with all_registered) (options_with [''a'', ''b''] [''com'', ''net''] True) Map.empty [Go 2])
        (execute (platform_with all_registered) (options_with [''a'', ''b''] [''com'', ''net''] True) Map.empty [Go 2, Go 0])
   \<and> received (execute (platform_with all_registered) (options_with [''a'', ''b''] [''com'', ''net''] True) Map.empty [Go 2])
       = [\<lparr>Name = ''b'', TLDList = [\<lparr>TLDName = ''com'', IsAvailable = False\<rparr>]\<rparr>]
   \<and> (\<exists>new. received (execute (platform_with all_registered) (options_with [''a'', ''b''] [''com'', ''net''] True) Map.empty [Go 2, Go 0])
          = [\<lparr>Name = ''b'', TLDList = [\<lparr>TLDName = ''com'', IsAvailable = False\<rparr>]\<rparr>] @ new)
   \<and> received (execute (platform_with all_registered) (options_with [''a'', ''b''] [''com'', ''net''] True) Map.empty [Go 2, Go 0])
       = [\<lparr>Name = ''b'', TLDList = [\<lparr>TLDName = ''com'', IsAvailable = False\<rparr>]\<rparr>,
          \<lparr>Name = ''a'', TLDList = [\<lparr>TLDName = ''com'', IsAvailable = False\<rparr>]\<rparr>]
   \<and> snd (run all_registered (options_with [''a'', ''b''] [''com'', ''net''] True)) = None
   \<and> map Name (fst (run all_registered (options_with [''a'', ''b''] [''com'', ''net''] True))) = [''a'', ''b'']"
proof -
  let ?P = "platform_with all_registered"
  let ?opts = "options_with [''a'', ''b''] [''com'', ''net''] True"
  let ?s = "execute ?P ?opts Map.empty [Go 2, Go 0, Go 1, Go 3, Go 0, Go 1, Go 2, Go 3, Closer, RangeEnds]"
  let ?t = "execute ?P ?opts Map.empty [Go 2]"
  let ?t' = "execute ?P ?opts Map.empty [Go 2, Go 0]"
  let ?R = "fst (run all_registered ?opts)"
  let ?rb = "\<lparr>Name = ''b'', TLDList = [\<lparr>TLDName = ''com'', IsAvailable = False\<rparr>]\<rparr>"
  let ?ra = "\<lparr>Name = ''a'', TLDList = [\<lparr>TLDName = ''com'', IsAvailable = False\<rparr>]\<rparr>"
  have r: "reachable ?P ?opts Map.empty ?s" by (rule reachable_execute)
  have st: "status ?s \<noteq> Running" by (simp add: concrete_defs)
  have sn: "snd (run all_registered ?opts) = None" by (simp add: concrete_defs)
  then have ru: "run all_registered ?opts = (?R, None)" by (simp add: prod_eq_iff)
  have rt: "received ?t = [?rb]" by (simp add: concrete_defs)
  have rt': "received ?t' = [?rb, ?ra]" by (simp add: concrete_defs)
  have p: "?t' = perform ?P ?opts ?t (Go 0)" by (simp add: execute_def)
  have "?t' \<noteq> ?t" using rt rt' by auto
  then have stp: "step ?P ?opts ?t ?t'" using perform_step [of ?P ?opts ?t "Go 0"] p by simp
  note T = names_in_collected_results [where P = ?P and opts = ?opts and fs = Map.empty and s = ?s
      and name = "''a''" and lookup = all_registered and Results = ?R and t = ?t and t' = ?t']
  have ne: "''a'' \<noteq> []" by simp
  have c: "count_list (map Name (received ?s)) ''a''
           = count_list (NamesList ?opts) ''a'' * length (TLDsList ?opts)"
    by (rule T [THEN conjunct1, THEN mp, OF conjI [OF r conjI [OF st ne]]])
  have c': "count_list (NamesList ?opts) ''a'' * length (TLDsList ?opts) = 2"
    by (simp add: options_with_def)
  have "\<exists>new. received ?t' = received ?t @ new
           \<and> mset new + mset (concat (map sends_of (goroutines ?t')))
               = mset (concat (map sends_of (goroutines ?t)))"
    by (rule T [THEN conjunct2, THEN conjunct1, THEN mp, OF stp])
  then have ap: "\<exists>new. received ?t' = [?rb] @ new" unfolding rt by blast
  have m: "map Name ?R = filter (\<lambda>n. n \<noteq> []) (NamesList ?opts)"
    by (rule T [THEN conjunct2, THEN conjunct2, THEN conjunct2, THEN mp, OF ru])
  have m': "filter (\<lambda>n. n \<noteq> []) (NamesList ?opts) = [''a'', ''b'']" by (simp add: options_with_def)
  have cc: "count_list (map Name (received ?s)) ''a'' = 2" using c c' by simp
  have mm: "map Name ?R = [''a'', ''b'']" using m m' by simp
  show ?thesis by (intro conjI) (rule r st cc stp rt ap rt' sn mm)+
qed

text \<open>
  C4. No probe is dispatched for an empty name and the final collection has no result
  for an empty entry.

  The dispatch loop of \<^verbatim>\<open>main\<close> does not skip empty names (the loop of \<^verbatim>\<open>run\<close> does).
  With the names \<^verbatim>\<open>a\<close> and the empty string and the TLD \<^verbatim>\<open>com\<close>, \<^verbatim>\<open>main\<close> probes \<^verbatim>\<open>.com\<close>,
  collects a result with the empty name and prints \<^verbatim>\<open>.com is available\<close>; \<^verbatim>\<open>run\<close> returns
  the result of \<^verbatim>\<open>a\<close> only.
\<close>

theorem blank_name_is_probed_by_main:
  "probes (options_with [''a'', []] [''com''] False) = [(''a'', ''com''), ([], ''com'')]
   \<and> reachable (platform_with none_exists) (options_with [''a'', []] [''com''] False) Map.empty
        (execute (platform_with none_exists) (options_with [''a'', []] [''com''] False) Map.empty
           [Go 0, Go 1, Go 0, Go 1, Closer, RangeEnds])
   \<and> status (execute (platform_with none_exists) (options_with [''a'', []] [''com''] False) Map.empty
           [Go 0, Go 1, Go 0, Go 1, Closer, RangeEnds]) = Exited 0
   \<and> received (execute (platform_with none_exists) (options_with [''a'', []] [''com''] False) Map.empty
           [Go 0, Go 1, Go 0, Go 1, Closer, RangeEnds])
       = [\<lparr>Name = ''a'', TLDList = [\<lparr>TLDName = ''com'', IsAvailable = True\<rparr>]\<rparr>,
          \<lparr>Name = [], TLDList = [\<lparr>TLDName = ''com'', IsAvailable = True\<rparr>]\<rparr>]
   \<and> stdout (execute (platform_with none_exists) (options_with [''a'', []] [''com''] False) Map.empty
           [Go 0, Go 1, Go 0, Go 1, Closer, RangeEnds])
       = [''a.com is available'' @ [CHR 0x0A], ''.com is available'' @ [CHR 0x0A]]
   \<and> run none_exists (options_with [''a'', []] [''com''] False)
       = ([\<lparr>Name = ''a'', TLDList = [\<lparr>TLDName = ''com'', IsAvailable = True\<rparr>]\<rparr>], None)"
  by (simp add: reachable_execute) (simp add: concrete_defs)

text \<open>
  C5. For every (name, tld) pair of the cross product whose lookup returned no error,
  exactly one verdict for that tld is found under that name in the final collection of a
  complete run of \<^verbatim>\<open>main\<close>, once per occurrence of the pair in the input: the verdicts for
  \<open>tld\<close> under \<open>name\<close> are as many copies of the one verdict as the name occurs in the name
  list times the tld occurs in the TLD list. None is lost and none is duplicated beyond
  the duplication of the input.
\<close>

theorem one_verdict_per_probed_pair:
  assumes "reachable P opts fs s" and "status s \<noteq> Running"
    and "snd (isDomainNameAvailable (LookupHost P) (name @ ''.'' @ tld)) = None"
  shows "verdicts_for (received s) name tld
         = replicate (count_list (NamesList opts) name * count_list (TLDsList opts) tld)
             \<lparr>TLDName = tld,
              IsAvailable = fst (isDomainNameAvailable (LookupHost P) (name @ ''.'' @ tld))\<rparr>"
  using assms by (rule verdicts_for_final)

text \<open>C5 at a complete run in which the lookup of \<^verbatim>\<open>a.com\<close> fails and \<^verbatim>\<open>b.com\<close> is registered.\<close>

theorem one_verdict_per_probed_pair_witness:
  "reachable (platform_with a_com_fails) (options_with [''a'', ''b''] [''com''] True) Map.empty
     (execute (platform_with a_com_fails) (options_with [''a'', ''b''] [''com''] True) Map.empty
        [Go 1, Go 0, Go 0, Go 1, Go 0, Closer, RangeEnds])
   \<and> status (execute (platform_with a_com_fails) (options_with [''a'', ''b''] [''com''] True) Map.empty
        [Go 1, Go 0, Go 0, Go 1, Go 0, Closer, RangeEnds]) = Exited 0
   \<and> snd (isDomainNameAvailable (LookupHost (platform_with a_com_fails)) (''b'' @ ''.'' @ ''com'')) = None
   \<and> verdicts_for (received (execute (platform_with a_com_fails) (options_with [''a'', ''b''] [''com''] True) Map.empty
        [Go 1, Go 0, Go 0, Go 1, Go 0, Closer, RangeEnds])) ''b'' ''com''
       = [\<lparr>TLDName = ''com'', IsAvailable = False\<rparr>]"
proof -
  let ?P = "platform_with a_com_fails"
  let ?opts = "options_with [''a'', ''b''] [''com''] True"
  let ?s = "execute ?P ?opts Map.empty [Go 1, Go 0, Go 0, Go 1, Go 0, Closer, RangeEnds]"
  have r: "reachable ?P ?opts Map.empty ?s" by (rule reachable_execute)
  have st: "status ?s = Exited 0" by (simp add: concrete_defs)
  then have st': "status ?s \<noteq> Running" by simp
  have ok: "snd (isDomainNameAvailable (LookupHost ?P) (''b'' @ ''.'' @ ''com'')) = None"
    by (simp add: concrete_defs)
  have "verdicts_for (received ?s) ''b'' ''com''
        = replicate (count_list (NamesList ?opts) ''b'' * count_list (TLDsList ?opts) ''com'')
            \<lparr>TLDName = ''com'',
             IsAvailable = fst (isDomainNameAvailable (LookupHost ?P) (''b'' @ ''.'' @ ''com''))\<rparr>"
    by (rule one_verdict_per_probed_pair [OF r st' ok])
  also have "\<dots> = [\<lparr>TLDName = ''com'', IsAvailable = False\<rparr>]"
    by (simp add: concrete_defs)
  finally show ?thesis using r st ok by simp
qed

text \<open>
  C6, as stated: the output code sees the result collection only once every dispatched
  probe has completed. It fails without \<^verbatim>\<open>-j\<close>: after the first goroutine has sent its
  result, \<^verbatim>\<open>a.com is not available\<close> is on standard output while the second goroutine
  has not yet sent, the counter of the wait group is 2 and the channel is open.
\<close>

theorem text_mode_prints_before_the_barrier:
  "\<not> Json (options_with [''a''] [''com'', ''net''] False)
   \<and> reachable (platform_with all_registered) (options_with [''a''] [''com'', ''net''] False) Map.empty
        (execute (platform_with all_registered) (options_with [''a''] [''com'', ''net''] False) Map.empty [Go 0])
   \<and> stdout (execute (platform_with all_registered) (options_with [''a''] [''com'', ''net''] False) Map.empty [Go 0])
       = [''a.com is not available'' @ [CHR 0x0A]]
   \<and> status (execute (platform_with all_registered) (options_with [''a''] [''com'', ''net''] False) Map.empty [Go 0])
       = Running
   \<and> \<not> closed (execute (platform_with all_registered) (options_with [''a''] [''com'', ''net''] False) Map.empty [Go 0])
   \<and> wg (execute (platform_with all_registered) (options_with [''a''] [''com'', ''net''] False) Map.empty [Go 0]) = 2
   \<and> goroutines (execute (platform_with all_registered) (options_with [''a''] [''com'', ''net''] False) Map.empty [Go 0])
       = [[WgDone],
          [Send \<lparr>Name = ''a'', TLDList = [\<lparr>TLDName = ''net'', IsAvailable = False\<rparr>]\<rparr>, WgDone]]"
  by (simp add: reachable_execute) (simp add: concrete_defs)

text \<open>
  C6, amended. \<^verbatim>\<open>main\<close> leaves its loop over the channel only after every dispatched
  goroutine has sent its result and returned: whenever \<^verbatim>\<open>main\<close> is no longer running, the
  channel is closed, the counter is zero, no goroutine has anything left to do and the
  received values are exactly the dispatched ones; the step that ends the run is the
  rendering step, taken from such a state. Before that no file is written, and with
  \<^verbatim>\<open>-j\<close> standard output holds only the diagnostics of the goroutines. (Without \<^verbatim>\<open>-j\<close>
  every result is printed as it is received.)
\<close>

theorem join_barrier_before_json_rendering:
  assumes "reachable P opts fs s"
  shows "(status s \<noteq> Running \<longrightarrow>
            closed s \<and> wg s = 0 \<and> (\<forall>g \<in> set (goroutines s). g = [])
            \<and> mset (received s) = mset (dispatched_results (LookupHost P) opts))
       \<and> (status s = Running \<longrightarrow> files s = fs)
       \<and> (status s = Running \<and> Json opts \<longrightarrow>
            set (stdout s) \<subseteq> set (diagnostics (LookupHost P) opts))
       \<and> (\<forall>s'. step P opts s s' \<and> status s' \<noteq> Running \<longrightarrow>
            s' = main_finish P opts s \<and> closed s \<and> (\<forall>g \<in> set (goroutines s). g = [])
            \<and> mset (received s) = mset (dispatched_results (LookupHost P) opts))"
proof -
  have inv: "fan_in_inv P opts s" using assms by (rule reachable_inv)
  have q: "quiet_inv P opts fs s" using assms by (rule reachable_quiet)
  have fin: "closed s \<and> wg s = 0 \<and> (\<forall>g \<in> set (goroutines s). g = [])
              \<and> mset (received s) = mset (dispatched_results (LookupHost P) opts)"
    if cl: "closed s"
    using cl fan_in_invD(3) [OF inv cl] closed_complete [OF inv cl] by simp
  have a: "status s \<noteq> Running \<longrightarrow>
            closed s \<and> wg s = 0 \<and> (\<forall>g \<in> set (goroutines s). g = [])
            \<and> mset (received s) = mset (dispatched_results (LookupHost P) opts)"
    using fan_in_invD(6) [OF inv] fin by blast
  have b: "status s = Running \<longrightarrow> files s = fs"
    using q by (simp add: quiet_inv_def)
  have c: "status s = Running \<and> Json opts \<longrightarrow>
            set (stdout s) \<subseteq> set (diagnostics (LookupHost P) opts)"
    using q by (simp add: quiet_inv_def)
  have d: "\<forall>s'. step P opts s s' \<and> status s' \<noteq> Running \<longrightarrow>
            s' = main_finish P opts s \<and> closed s \<and> (\<forall>g \<in> set (goroutines s). g = [])
            \<and> mset (received s) = mset (dispatched_results (LookupHost P) opts)"
  proof (intro allI impI)
    fix s' assume h: "step P opts s s' \<and> status s' \<noteq> Running"
    then have e: "s' = main_finish P opts s \<and> closed s" using exit_step [OF _ inv] by blast
    then show "s' = main_finish P opts s \<and> closed s \<and> (\<forall>g \<in> set (goroutines s). g = [])
            \<and> mset (received s) = mset (dispatched_results (LookupHost P) opts)"
      using fin by blast
  qed
  show ?thesis using a b c d by blast
qed

text \<open>The amended C6 at a run with \<^verbatim>\<open>-j\<close>, before the loop has ended and after the exit.\<close>

theorem join_barrier_before_json_rendering_witness:
  "reachable (platform_with a_com_fails) (options_with [''a''] [''com''] True) Map.empty
     (execute (platform_with a_com_fails) (options_with [''a''] [''com''] True) Map.empty [Go 0, Go 0])
   \<and> status (execute (platform_with a_com_fails) (options_with [''a''] [''com''] True) Map.empty [Go 0, Go 0])
       = Running
   \<and> Json (options_with [''a''] [''com''] True)
   \<and> files (execute (platform_with a_com_fails) (options_with [''a''] [''com''] True) Map.empty [Go 0, Go 0])
       = Map.empty
   \<and> set (stdout (execute (platform_with a_com_fails) (options_with [''a''] [''com''] True) Map.empty [Go 0, Go 0]))
       \<subseteq> set (diagnostics (LookupHost (platform_with a_com_fails)) (options_with [''a''] [''com''] True))
   \<and> reachable (platform_with a_com_fails) (options_with [''a''] [''com''] True) Map.empty
     (execute (platform_with a_com_fails) (options_with [''a''] [''com''] True) Map.empty
        [Go 0, Go 0, Go 0, Closer, RangeEnds])
   \<and> status (execute (platform_with a_com_fails) (options_with [''a''] [''com''] True) Map.empty
        [Go 0, Go 0, Go 0, Closer, RangeEnds]) = Exited 0
   \<and> closed (execute (platform_with a_com_fails) (options_with [''a''] [''com''] True) Map.empty
        [Go 0, Go 0, Go 0, Closer, RangeEnds])
   \<and> wg (execute (platform_with a_com_fails) (options_with [''a''] [''com''] True) Map.empty
        [Go 0, Go 0, Go 0, Closer, RangeEnds]) = 0"
proof -
  let ?P = "platform_with a_com_fails"
  let ?opts = "options_with [''a''] [''com''] True"
  let ?s1 = "execute ?P ?opts Map.empty [Go 0, Go 0]"
  let ?s2 = "execute ?P ?opts Map.empty [Go 0, Go 0, Go 0, Closer, RangeEnds]"
  have r1: "reachable ?P ?opts Map.empty ?s1" by (rule reachable_execute)
  have r2: "reachable ?P ?opts Map.empty ?s2" by (rule reachable_execute)
  have st1: "status ?s1 = Running" by (simp add: concrete_defs)
  have st2: "status ?s2 = Exited 0" by (simp add: concrete_defs)
  then have st2': "status ?s2 \<noteq> Running" by simp
  have j: "Json ?opts" by (simp add: options_with_def)
  note T1 = join_barrier_before_json_rendering [OF r1]
  note T2 = join_barrier_before_json_rendering [OF r2]
  have f: "files ?s1 = Map.empty"
    by (rule T1 [THEN conjunct2, THEN conjunct1, THEN mp, OF st1])
  have o: "set (stdout ?s1) \<subseteq> set (diagnostics (LookupHost ?P) ?opts)"
    by (rule T1 [THEN conjunct2, THEN conjunct2, THEN conjunct1, THEN mp, OF conjI [OF st1 j]])
  note c = T2 [THEN conjunct1, THEN mp, OF st2']
  have c1: "closed ?s2" by (rule c [THEN conjunct1])
  have c2: "wg ?s2 = 0" by (rule c [THEN conjunct2, THEN conjunct1])
  show ?thesis by (intro conjI) (rule r1 st1 j f o r2 st2 c1 c2)+
qed

text \<open>
  C7. No deduplication: the probes are the full cross product of the name list and the
  TLD list, one goroutine each, a pair occurring as often as its name occurs in the name
  list times its tld occurs in the TLD list. Each of these goroutines looks its own
  \<^verbatim>\<open>name.tld\<close> up and sends the verdict of that lookup (or an empty result when the lookup
  returned an error). A complete run of \<^verbatim>\<open>main\<close> has received exactly the values of all
  these goroutines, duplicates included: the verdicts for \<open>tld\<close> under \<open>name\<close> are as many
  copies of the verdict of the lookup as the pair occurs in the cross product.
\<close>

theorem full_cross_product_without_deduplication:
  "probes opts = List.product (NamesList opts) (TLDsList opts)
   \<and> dispatch lookup opts = map (\<lambda>(name, tld). checkDomains lookup name [tld]) (probes opts)
   \<and> checkDomains lookup name [tld] =
       (case isDomainNameAvailable lookup (name @ ''.'' @ tld) of
          (available, None) \<Rightarrow>
            [Send \<lparr>Name = name, TLDList = [\<lparr>TLDName = tld, IsAvailable = available\<rparr>]\<rparr>, WgDone]
        | (available, Some err) \<Rightarrow>
            [Print (''Error checking availability for domain '' @ (name @ ''.'' @ tld) @ '': ''
                    @ error_string err),
             Send \<lparr>Name = name, TLDList = []\<rparr>, WgDone])
   \<and> checkDomains lookup name [tld] =
       (case lookup (name @ ''.'' @ tld) of
          Inr addrs \<Rightarrow>
            [Send \<lparr>Name = name, TLDList = [\<lparr>TLDName = tld, IsAvailable = False\<rparr>]\<rparr>, WgDone]
        | Inl (DNS e) \<Rightarrow>
            [Send \<lparr>Name = name, TLDList = [\<lparr>TLDName = tld, IsAvailable = True\<rparr>]\<rparr>, WgDone]
        | Inl (OtherError msg) \<Rightarrow>
            [Print (''Error checking availability for domain '' @ (name @ ''.'' @ tld) @ '': '' @ msg),
             Send \<lparr>Name = name, TLDList = []\<rparr>, WgDone])
   \<and> length (dispatch lookup opts) = length (NamesList opts) * length (TLDsList opts)
   \<and> count_list (probes opts) (name, tld)
       = count_list (NamesList opts) name * count_list (TLDsList opts) tld
   \<and> (reachable P opts fs s \<and> status s \<noteq> Running
        \<longrightarrow> mset (received s) = mset (dispatched_results (LookupHost P) opts)
            \<and> mset (received s) = mset (map (probe_result (LookupHost P)) (probes opts))
            \<and> length (received s) = length (NamesList opts) * length (TLDsList opts))
   \<and> (reachable P opts fs s \<and> status s \<noteq> Running
        \<and> snd (isDomainNameAvailable (LookupHost P) (name @ ''.'' @ tld)) = None
        \<longrightarrow> verdicts_for (received s) name tld
            = replicate (count_list (NamesList opts) name * count_list (TLDsList opts) tld)
                \<lparr>TLDName = tld,
                 IsAvailable = fst (isDomainNameAvailable (LookupHost P) (name @ ''.'' @ tld))\<rparr>)"
proof -
  have a: "probes opts = List.product (NamesList opts) (TLDsList opts)" by (rule probes_product)
  have a': "dispatch lookup opts = map (\<lambda>(name, tld). checkDomains lookup name [tld]) (probes opts)"
    by (simp add: dispatch_def)
  note a'' = checkDomains_single [of lookup name tld]
  have b: "length (dispatch lookup opts) = length (NamesList opts) * length (TLDsList opts)"
    by (simp add: dispatch_def length_probes)
  have c: "count_list (probes opts) (name, tld)
           = count_list (NamesList opts) name * count_list (TLDsList opts) tld"
    by (simp add: probes_product count_list_product)
  have d: "mset (received s) = mset (dispatched_results (LookupHost P) opts)
           \<and> mset (received s) = mset (map (probe_result (LookupHost P)) (probes opts))
           \<and> length (received s) = length (NamesList opts) * length (TLDsList opts)"
    if r: "reachable P opts fs s" and st: "status s \<noteq> Running"
  proof -
    have m: "mset (received s) = mset (map (probe_result (LookupHost P)) (probes opts))"
      by (rule final_received [OF r st])
    then have "length (received s) = length (map (probe_result (LookupHost P)) (probes opts))"
      by (rule mset_eq_length)
    then show ?thesis using m by (simp add: dispatched_results_eq length_probes)
  qed
  have e: "verdicts_for (received s) name tld
            = replicate (count_list (NamesList opts) name * count_list (TLDsList opts) tld)
                \<lparr>TLDName = tld,
                 IsAvailable = fst (isDomainNameAvailable (LookupHost P) (name @ ''.'' @ tld))\<rparr>"
    if "reachable P opts fs s" and "status s \<noteq> Running"
      and "snd (isDomainNameAvailable (LookupHost P) (name @ ''.'' @ tld)) = None"
    using that by (rule verdicts_for_final)
  show ?thesis
    apply (intro conjI impI)
    apply (rule a)
    apply (rule a')
    apply (rule a'')
    apply (rule checkDomains_single_lookup)
    apply (rule b)
    apply (rule c)
    using d apply blast
    using d apply blast
    using d apply blast
    using e apply blast
    done
qed

text \<open>C7 at the name list \<^verbatim>\<open>a, a\<close>: two probes of \<^verbatim>\<open>a.com\<close>, two results, two verdicts.\<close>

theorem full_cross_product_without_deduplication_witness:
  "probes (options_with [''a'', ''a''] [''com''] True) = [(''a'', ''com''), (''a'', ''com'')]
   \<and> count_list (probes (options_with [''a'', ''a''] [''com''] True)) (''a'', ''com'') = 2
   \<and> checkDomains none_exists ''a'' [''com'']
       = [Send \<lparr>Name = ''a'', TLDList = [\<lparr>TLDName = ''com'', IsAvailable = True\<rparr>]\<rparr>, WgDone]
   \<and> reachable (platform_with none_exists) (options_with [''a'', ''a''] [''com''] True) Map.empty
        (execute (platform_with none_exists) (options_with [''a'', ''a''] [''com''] True) Map.empty
           [Go 1, Go 0, Go 1, Go 0, Closer, RangeEnds])
   \<and> status (execute (platform_with none_exists) (options_with [''a'', ''a''] [''com''] True) Map.empty
           [Go 1, Go 0, Go 1, Go 0, Closer, RangeEnds]) = Exited 0
   \<and> snd (isDomainNameAvailable (LookupHost (platform_with none_exists)) (''a'' @ ''.'' @ ''com'')) = None
   \<and> length (received (execute (platform_with none_exists) (options_with [''a'', ''a''] [''com''] True) Map.empty
           [Go 1, Go 0, Go 1, Go 0, Closer, RangeEnds])) = 2
   \<and> verdicts_for (received (execute (platform_with none_exists) (options_with [''a'', ''a''] [''com''] True) Map.empty
           [Go 1, Go 0, Go 1, Go 0, Closer, RangeEnds])) ''a'' ''com''
       = [\<lparr>TLDName = ''com'', IsAvailable = True\<rparr>, \<lparr>TLDName = ''com'', IsAvailable = True\<rparr>]"
proof -
  let ?P = "platform_with none_exists"
  let ?opts = "options_with [''a'', ''a''] [''com''] True"
  let ?s = "execute ?P ?opts Map.empty [Go 1, Go 0, Go 1, Go 0, Closer, RangeEnds]"
  note T = full_cross_product_without_deduplication
             [where opts = ?opts and lookup = none_exists and name = "''a''" and tld = "''com''"
                and P = ?P and fs = Map.empty and s = ?s]
  have r: "reachable ?P ?opts Map.empty ?s" by (rule reachable_execute)
  have st: "status ?s = Exited 0" by (simp add: concrete_defs)
  have st': "status ?s \<noteq> Running" using st by simp
  have ok: "snd (isDomainNameAvailable (LookupHost ?P) (''a'' @ ''.'' @ ''com'')) = None"
    by (simp add: concrete_defs)
  have p: "probes ?opts = List.product (NamesList ?opts) (TLDsList ?opts)"
    by (rule T [THEN conjunct1])
  have p': "List.product (NamesList ?opts) (TLDsList ?opts) = [(''a'', ''com''), (''a'', ''com'')]"
    by (simp add: options_with_def)
  note T5 = T [THEN conjunct2, THEN conjunct2, THEN conjunct2, THEN conjunct2, THEN conjunct2]
  have c: "count_list (probes ?opts) (''a'', ''com'')
           = count_list (NamesList ?opts) ''a'' * count_list (TLDsList ?opts) ''com''"
    by (rule T5 [THEN conjunct1])
  have c': "count_list (NamesList ?opts) ''a'' * count_list (TLDsList ?opts) ''com'' = 2"
    by (simp add: options_with_def)
  have k: "checkDomains none_exists ''a'' [''com'']
           = [Send \<lparr>Name = ''a'', TLDList = [\<lparr>TLDName = ''com'', IsAvailable = True\<rparr>]\<rparr>, WgDone]"
    by (simp add: concrete_defs)
  note d = T5 [THEN conjunct2, THEN conjunct1, THEN mp, OF conjI [OF r st']]
  have l: "length (received ?s) = length (NamesList ?opts) * length (TLDsList ?opts)"
    by (rule d [THEN conjunct2, THEN conjunct2])
  have l': "length (NamesList ?opts) * length (TLDsList ?opts) = 2" by (simp add: options_with_def)
  have v: "verdicts_for (received ?s) ''a'' ''com''
            = replicate (count_list (NamesList ?opts) ''a'' * count_list (TLDsList ?opts) ''com'')
                \<lparr>TLDName = ''com'',
                 IsAvailable = fst (isDomainNameAvailable (LookupHost ?P) (''a'' @ ''.'' @ ''com''))\<rparr>"
    by (rule T5 [THEN conjunct2, THEN conjunct2, THEN mp, OF conjI [OF r conjI [OF st' ok]]])
  have v': "replicate (count_list (NamesList ?opts) ''a'' * count_list (TLDsList ?opts) ''com'')
                \<lparr>TLDName = ''com'',
                 IsAvailable = fst (isDomainNameAvailable (LookupHost ?P) (''a'' @ ''.'' @ ''com''))\<rparr>
            = [\<lparr>TLDName = ''com'', IsAvailable = True\<rparr>, \<lparr>TLDName = ''com'', IsAvailable = True\<rparr>]"
    by (simp add: concrete_defs numeral_2_eq_2)
  have pp: "probes ?opts = [(''a'', ''com''), (''a'', ''com'')]" using p p' by simp
  have cc: "count_list (probes ?opts) (''a'', ''com'') = 2" using c c' by simp
  have ll: "length (received ?s) = 2" using l l' by simp
  have vv: "verdicts_for (received ?s) ''a'' ''com''
            = [\<lparr>TLDName = ''com'', IsAvailable = True\<rparr>, \<lparr>TLDName = ''com'', IsAvailable = True\<rparr>]"
    using v v' by simp
  show ?thesis by (intro conjI) (rule pp cc k r st ok ll vv)+
qed

text \<open>
  C8. Rendering the same completed collection twice gives the same output.
  \<^verbatim>\<open>SpoolOutputToFile\<close> called again on the file system it produced leaves the same file
  system, the same console output and the same outcome; called on any other file system
  it gives the same console output and outcome and, when the file can be created, the
  same file content. The rendering at the end of \<^verbatim>\<open>main\<close> depends on the received values
  (and the files) only, and what the loop prints for a result depends on that result only.
\<close>

theorem SpoolOutputToFile_repeatable:
  "(SpoolOutputToFile P fs name result j = (fs', out, r)
      \<longrightarrow> SpoolOutputToFile P fs' name result j = (fs', out, r))
   \<and> (SpoolOutputToFile P fs name result j = (fs', out, r)
        \<and> SpoolOutputToFile P fs2 name result j = (fs2', out2, r2)
      \<longrightarrow> out2 = out \<and> r2 = r \<and> (create_fails P name = None \<longrightarrow> fs2' name = fs' name))
   \<and> (received s1 = received s2 \<and> files s1 = files s2
      \<longrightarrow> files (main_finish P opts s1) = files (main_finish P opts s2)
          \<and> status (main_finish P opts s1) = status (main_finish P opts s2)
          \<and> drop (length (stdout s1)) (stdout (main_finish P opts s1))
              = drop (length (stdout s2)) (stdout (main_finish P opts s2)))
   \<and> stdout (main_receive opts res s1) = stdout s1 @ (if Json opts then [] else result_lines res)"
proof -
  have a: "SpoolOutputToFile P fs' name result j = (fs', out, r)"
    if "SpoolOutputToFile P fs name result j = (fs', out, r)"
    using that by (rule spool_twice)
  have b: "out2 = out \<and> r2 = r \<and> (create_fails P name = None \<longrightarrow> fs2' name = fs' name)"
    if "SpoolOutputToFile P fs name result j = (fs', out, r)"
      and "SpoolOutputToFile P fs2 name result j = (fs2', out2, r2)"
    using spool_any_fs [OF that] by simp
  have c: "files (main_finish P opts s1) = files (main_finish P opts s2)
          \<and> status (main_finish P opts s1) = status (main_finish P opts s2)
          \<and> drop (length (stdout s1)) (stdout (main_finish P opts s1))
              = drop (length (stdout s2)) (stdout (main_finish P opts s2))"
    if "received s1 = received s2" and "files s1 = files s2"
    using that by (rule main_finish_same)
  show ?thesis using a b c main_receive_prints [of opts res s1] by simp
qed

text \<open>C8 at a result with two verdicts, written twice to \<^verbatim>\<open>out.txt\<close>.\<close>

theorem SpoolOutputToFile_repeatable_witness:
  "SpoolOutputToFile (platform_with all_registered) Map.empty ''out.txt''
     [\<lparr>Name = ''a'', TLDList = [\<lparr>TLDName = ''com'', IsAvailable = True\<rparr>,
                                 \<lparr>TLDName = ''net'', IsAvailable = False\<rparr>]\<rparr>] False
   = ([''out.txt'' \<mapsto> ''a.com : true'' @ [CHR 0x0A] @ ''a.net : false'' @ [CHR 0x0A]], [], Returned None)
   \<and> SpoolOutputToFile (platform_with all_registered)
       [''out.txt'' \<mapsto> ''a.com : true'' @ [CHR 0x0A] @ ''a.net : false'' @ [CHR 0x0A]] ''out.txt''
     [\<lparr>Name = ''a'', TLDList = [\<lparr>TLDName = ''com'', IsAvailable = True\<rparr>,
                                 \<lparr>TLDName = ''net'', IsAvailable = False\<rparr>]\<rparr>] False
   = ([''out.txt'' \<mapsto> ''a.com : true'' @ [CHR 0x0A] @ ''a.net : false'' @ [CHR 0x0A]], [], Returned None)"
proof -
  let ?P = "platform_with all_registered"
  let ?rs = "[\<lparr>Name = ''a'', TLDList = [\<lparr>TLDName = ''com'', IsAvailable = True\<rparr>,
                                          \<lparr>TLDName = ''net'', IsAvailable = False\<rparr>]\<rparr>]"
  let ?fs' = "[''out.txt'' \<mapsto> ''a.com : true'' @ [CHR 0x0A] @ ''a.net : false'' @ [CHR 0x0A]]"
  have one: "SpoolOutputToFile ?P Map.empty ''out.txt'' ?rs False = (?fs', [], Returned None)"
    by (simp add: SpoolOutputToFile_def spool_body_def platform_with_def)
  note T = SpoolOutputToFile_repeatable [where P = ?P and fs = Map.empty and name = "''out.txt''"
      and result = ?rs and j = False and fs' = ?fs' and out = "[]" and r = "Returned None"]
  have two: "SpoolOutputToFile ?P ?fs' ''out.txt'' ?rs False = (?fs', [], Returned None)"
    by (rule T [THEN conjunct1, THEN mp, OF one])
  show ?thesis by (rule conjI [OF one two])
qed

text \<open>
  C9. For every domain string, \<^verbatim>\<open>isDomainNameAvailable\<close> never returns
  available = true together with a non-nil error: when it reports the domain available
  the error is nil, and when it returns a non-nil error the availability result is false.
\<close>

theorem isDomainNameAvailable_true_xor_error:
  "(fst (isDomainNameAvailable lookup domain) \<longrightarrow> snd (isDomainNameAvailable lookup domain) = None)
   \<and> (snd (isDomainNameAvailable lookup domain) \<noteq> None \<longrightarrow> \<not> fst (isDomainNameAvailable lookup domain))"
  by (simp add: isDomainNameAvailable_def split: sum.split go_error.split)

text \<open>C9 at a name that does not exist and at a lookup that fails with another error.\<close>

theorem isDomainNameAvailable_true_xor_error_witness:
  "fst (isDomainNameAvailable (\<lambda>d. Inl (DNS \<lparr>Err = ''no such host'', DNSName = d, Server = [],
        IsTimeout = False, IsTemporary = False, IsNotFound = True\<rparr>)) ''free.com'')
   \<and> snd (isDomainNameAvailable (\<lambda>d. Inl (DNS \<lparr>Err = ''no such host'', DNSName = d, Server = [],
        IsTimeout = False, IsTemporary = False, IsNotFound = True\<rparr>)) ''free.com'') = None
   \<and> snd (isDomainNameAvailable (\<lambda>d. Inl (OtherError ''boom'')) ''free.com'') \<noteq> None
   \<and> \<not> fst (isDomainNameAvailable (\<lambda>d. Inl (OtherError ''boom'')) ''free.com'')"
  using isDomainNameAvailable_true_xor_error
    [of "\<lambda>d. Inl (DNS \<lparr>Err = ''no such host'', DNSName = d, Server = [],
        IsTimeout = False, IsTemporary = False, IsNotFound = True\<rparr>)" "''free.com''"]
    isDomainNameAvailable_true_xor_error [of "\<lambda>d. Inl (OtherError ''boom'')" "''free.com''"]
  by (simp add: isDomainNameAvailable_def)

text \<open>
  C10. Every invocation of \<^verbatim>\<open>checkDomains\<close> sends exactly one result on the channel
  and then decrements the wait group, also when every lookup fails (the result then has
  an empty verdict list). So every dispatched goroutine contributes exactly one value,
  received or still to be sent, and the fan-in ends: every step uses up one of the
  remaining events, a running process can always take a step, and a process that is no
  longer running has exited (it has not panicked) with one value received per goroutine.
\<close>

theorem checkDomains_sends_one_result_and_fan_in_ends:
  "(\<exists>msgs tldList. checkDomains lookup name tlds
        = map Print msgs @ [Send \<lparr>Name = name, TLDList = tldList\<rparr>, WgDone])
   \<and> ((\<forall>tld \<in> set tlds. snd (isDomainNameAvailable lookup (name @ ''.'' @ tld)) \<noteq> None)
        \<longrightarrow> sends_of (checkDomains lookup name tlds) = [\<lparr>Name = name, TLDList = []\<rparr>])
   \<and> (reachable P opts fs s \<longrightarrow>
        length (received s) + length (concat (map sends_of (goroutines s)))
          = length (dispatch (LookupHost P) opts)
        \<and> (\<forall>s'. step P opts s s' \<longrightarrow> remaining s' < remaining s)
        \<and> (status s = Running \<longrightarrow> (\<exists>s'. step P opts s s'))
        \<and> (status s \<noteq> Running \<longrightarrow>
              (\<exists>code. status s = Exited code)
              \<and> length (received s) = length (dispatch (LookupHost P) opts)))"
proof -
  have a: "\<exists>msgs tldList. checkDomains lookup name tlds
        = map Print msgs @ [Send \<lparr>Name = name, TLDList = tldList\<rparr>, WgDone]"
  proof -
    obtain msgs r where g: "checkDomains lookup name tlds = map Print msgs @ [Send r, WgDone]"
      using awaiting_send_shape [OF checkDomains_awaiting] by blast
    have "sends_of (checkDomains lookup name tlds) = [r]" unfolding g by simp
    moreover have "\<exists>tldList. sends_of (checkDomains lookup name tlds) = [\<lparr>Name = name, TLDList = tldList\<rparr>]"
      by (subst checkDomains_eq) simp
    ultimately obtain tldList where "r = \<lparr>Name = name, TLDList = tldList\<rparr>" by auto
    then show ?thesis using g by blast
  qed
  have b: "sends_of (checkDomains lookup name tlds) = [\<lparr>Name = name, TLDList = []\<rparr>]"
    if h: "\<forall>tld \<in> set tlds. snd (isDomainNameAvailable lookup (name @ ''.'' @ tld)) \<noteq> None"
  proof -
    have "filter (\<lambda>tld. snd (isDomainNameAvailable lookup (name @ ''.'' @ tld)) = None) tlds = []"
      using h by (simp add: filter_empty_conv)
    then show ?thesis by (subst checkDomains_eq) simp
  qed
  have c: "length (received s) + length (concat (map sends_of (goroutines s)))
          = length (dispatch (LookupHost P) opts)
        \<and> (\<forall>s'. step P opts s s' \<longrightarrow> remaining s' < remaining s)
        \<and> (status s = Running \<longrightarrow> (\<exists>s'. step P opts s s'))
        \<and> (status s \<noteq> Running \<longrightarrow>
              (\<exists>code. status s = Exited code)
              \<and> length (received s) = length (dispatch (LookupHost P) opts))"
    if r: "reachable P opts fs s"
  proof -
    have inv: "fan_in_inv P opts s" using r by (rule reachable_inv)
    have "size (mset (received s) + mset (concat (map sends_of (goroutines s))))
          = size (mset (dispatched_results (LookupHost P) opts))"
      using fan_in_invD(4) [OF inv] by simp
    then have c1: "length (received s) + length (concat (map sends_of (goroutines s)))
          = length (dispatch (LookupHost P) opts)"
      by (simp add: dispatched_results_eq dispatch_def)
    have c2: "\<forall>s'. step P opts s s' \<longrightarrow> remaining s' < remaining s"
      using step_decreases by blast
    have c3: "status s = Running \<longrightarrow> (\<exists>s'. step P opts s s')"
      using progress [OF inv] by blast
    have c4: "(\<exists>code. status s = Exited code)
              \<and> length (received s) = length (dispatch (LookupHost P) opts)"
      if st: "status s \<noteq> Running"
    proof -
      have "status s \<noteq> Panicked" using fan_in_invD(5) [OF inv] .
      then have e: "\<exists>code. status s = Exited code" using st by (cases "status s") simp_all
      have "mset (received s) = mset (map (probe_result (LookupHost P)) (probes opts))"
        by (rule final_received [OF r st])
      then have "length (received s) = length (map (probe_result (LookupHost P)) (probes opts))"
        by (rule mset_eq_length)
      then show ?thesis using e by (simp add: dispatch_def)
    qed
    show ?thesis using c1 c2 c3 c4 by blast
  qed
  show ?thesis using a b c by blast
qed

text \<open>C10 at a goroutine whose only lookup fails, and at the complete run of that input.\<close>

theorem checkDomains_sends_one_result_and_fan_in_ends_witness:
  "snd (isDomainNameAvailable a_com_fails (''a'' @ ''.'' @ ''com'')) \<noteq> None
   \<and> sends_of (checkDomains a_com_fails ''a'' [''com'']) = [\<lparr>Name = ''a'', TLDList = []\<rparr>]
   \<and> reachable (platform_with a_com_fails) (options_with [''a''] [''com''] False) Map.empty
       (execute (platform_with a_com_fails) (options_with [''a''] [''com''] False) Map.empty
          [Go 0, Go 0, Go 0, Closer, RangeEnds])
   \<and> status (execute (platform_with a_com_fails) (options_with [''a''] [''com''] False) Map.empty
          [Go 0, Go 0, Go 0, Closer, RangeEnds]) = Exited 0
   \<and> length (received (execute (platform_with a_com_fails) (options_with [''a''] [''com''] False) Map.empty
          [Go 0, Go 0, Go 0, Closer, RangeEnds])) = 1"
proof -
  let ?P = "platform_with a_com_fails"
  let ?opts = "options_with [''a''] [''com''] False"
  let ?s = "execute ?P ?opts Map.empty [Go 0, Go 0, Go 0, Closer, RangeEnds]"
  note T = checkDomains_sends_one_result_and_fan_in_ends
      [where lookup = a_com_fails and name = "''a''" and tlds = "[''com'']"
         and P = ?P and opts = ?opts and fs = Map.empty and s = ?s]
  have e: "snd (isDomainNameAvailable a_com_fails (''a'' @ ''.'' @ ''com'')) \<noteq> None"
    by (simp add: concrete_defs)
  then have h: "\<forall>tld \<in> set [''com'']. snd (isDomainNameAvailable a_com_fails (''a'' @ ''.'' @ tld)) \<noteq> None"
    by simp
  have sd: "sends_of (checkDomains a_com_fails ''a'' [''com'']) = [\<lparr>Name = ''a'', TLDList = []\<rparr>]"
    by (rule T [THEN conjunct2, THEN conjunct1, THEN mp, OF h])
  have r: "reachable ?P ?opts Map.empty ?s" by (rule reachable_execute)
  have st: "status ?s = Exited 0" by (simp add: concrete_defs)
  then have st': "status ?s \<noteq> Running" by simp
  note c = T [THEN conjunct2, THEN conjunct2, THEN mp, OF r]
  note c4 = c [THEN conjunct2, THEN conjunct2, THEN conjunct2, THEN mp, OF st']
  have "length (received ?s) = length (dispatch (LookupHost ?P) ?opts)"
    by (rule c4 [THEN conjunct2])
  also have "\<dots> = 1" by (simp add: dispatch_def probes_def options_with_def)
  finally have l: "length (received ?s) = 1" .
  show ?thesis by (intro conjI) (rule e sd r st l)+
qed

end
